theory Spec2Isabelle
  imports Complex_Main
begin

section \<open>Strings and numbers of the source\<close>

text \<open>
  A JavaScript string is a sequence of UTF-16 code units, and \<open>length\<close>, indexing and
  \<open>substring\<close> count code units. A string is therefore a list of code units, each an
  integer (its numeric value). Integral JavaScript numbers (indices, offsets, lengths, the
  sentinel \<open>-1\<close>) are \<open>int\<close>.

  Scores and times are \<open>rat\<close>. A similarity is the quotient of two set sizes, or the
  constant 0.8 or 0, and is only compared with a threshold (0.75, 0.8, 0.85); the segment
  times are only added and compared. Both are taken in exact arithmetic.
\<close>

type_synonym jsstring = "int list"

text \<open>The code units of a literal of 8-bit characters.\<close>

definition utf16 :: "string \<Rightarrow> jsstring" where
  "utf16 s = map of_char s"

text \<open>\<open>s[k]\<close>: the code unit at index \<open>k\<close>, or \<open>undefined\<close> (here \<open>None\<close>) out of range.\<close>

definition charAt :: "'a list \<Rightarrow> int \<Rightarrow> 'a option" where
  "charAt s k = (if 0 \<le> k \<and> k < int (length s) then Some (s ! nat k) else None)"

section \<open>Boyer-Moore-Horspool search\<close>

text \<open>
  The bad character table: for \<open>i = 0 .. pattern.length - 2\<close> in this order,
  \<open>badChar.set(pattern[i], pattern.length - 1 - i)\<close>; a later index overwrites an
  earlier one.
\<close>

definition badCharUpto :: "'a list \<Rightarrow> nat \<Rightarrow> ('a \<rightharpoonup> int)" where
  "badCharUpto pattern n =
     foldl (\<lambda>badChar i. badChar(pattern ! i \<mapsto> int (length pattern) - 1 - int i))
       Map.empty [0..<n]"

definition badCharTable :: "'a list \<Rightarrow> ('a \<rightharpoonup> int)" where
  "badCharTable pattern = badCharUpto pattern (length pattern - 1)"

text \<open>
  The inner loop \<open>while (j >= 0 && k >= 0 && text[k] === pattern[j])\<close>: it returns
  \<open>k\<close> from inside when \<open>j\<close> reaches \<open>0\<close>, and falls out (\<open>None\<close>) at a mismatch.
\<close>

function bmCompare :: "'a list \<Rightarrow> 'a list \<Rightarrow> int \<Rightarrow> int \<Rightarrow> int option" where
  "bmCompare text pattern j k =
     (if j \<ge> 0 \<and> k \<ge> 0 \<and> charAt text k = charAt pattern j
      then (if j = 0 then Some k else bmCompare text pattern (j - 1) (k - 1))
      else None)"
  by pat_completeness auto
termination
  by (relation "measure (\<lambda>(text, pattern, j, k). nat j)") auto

definition bmSkip :: "'a list \<Rightarrow> 'a list \<Rightarrow> int \<Rightarrow> int" where
  "bmSkip text pattern i =
     (case (if i < int (length text) then charAt text i else None) of
        Some c \<Rightarrow> (case badCharTable pattern c of
                     Some s \<Rightarrow> s
                   | None \<Rightarrow> int (length pattern))
      | None \<Rightarrow> int (length pattern))"

lemma badCharUpto_Suc:
  "badCharUpto p (Suc n) = (badCharUpto p n)(p ! n \<mapsto> int (length p) - 1 - int n)"
  by (simp add: badCharUpto_def)

lemma badCharUpto_Some:
  "badCharUpto p n c = Some s \<Longrightarrow>
     \<exists>i<n. p ! i = c \<and> s = int (length p) - 1 - int i \<and> (\<forall>j. i < j \<and> j < n \<longrightarrow> p ! j \<noteq> c)"
proof (induction n arbitrary: s)
  case 0
  then show ?case by (simp add: badCharUpto_def)
next
  case (Suc n)
  show ?case
  proof (cases "p ! n = c")
    case True
    with Suc.prems have "s = int (length p) - 1 - int n"
      by (simp add: badCharUpto_Suc)
    with True show ?thesis by auto
  next
    case False
    with Suc.prems have "badCharUpto p n c = Some s"
      by (simp add: badCharUpto_Suc)
    from Suc.IH[OF this] obtain i where i: "i < n" "p ! i = c"
      "s = int (length p) - 1 - int i" "\<forall>j. i < j \<and> j < n \<longrightarrow> p ! j \<noteq> c"
      by blast
    have "\<forall>j. i < j \<and> j < Suc n \<longrightarrow> p ! j \<noteq> c"
      using i(4) False by (auto simp: less_Suc_eq)
    with i show ?thesis by (intro exI[of _ i]) auto
  qed
qed

lemma badCharUpto_None:
  "badCharUpto p n c = None \<Longrightarrow> \<forall>i<n. p ! i \<noteq> c"
proof (induction n)
  case 0
  then show ?case by simp
next
  case (Suc n)
  then show ?case
    by (auto simp: badCharUpto_Suc less_Suc_eq split: if_splits)
qed

lemma badCharTable_pos:
  "badCharTable p c = Some s \<Longrightarrow> 1 \<le> s"
  unfolding badCharTable_def by (drule badCharUpto_Some) auto

lemma bmSkip_pos: "pattern \<noteq> [] \<Longrightarrow> 1 \<le> bmSkip text pattern i"
  by (auto simp: bmSkip_def Suc_le_eq dest: badCharTable_pos split: option.splits)

text \<open>
  The outer loop \<open>while (i < text.length)\<close>, entered with \<open>i = pattern.length - 1\<close>.
  The source reaches it only with a non-empty pattern; the guard on the pattern is the
  first early return of \<open>boyerMooreSearch\<close>, repeated here so that the recursion is total.
\<close>

function bmLoop :: "'a list \<Rightarrow> 'a list \<Rightarrow> int \<Rightarrow> int" where
  "bmLoop text pattern i =
     (if pattern \<noteq> [] \<and> i < int (length text)
      then (case bmCompare text pattern (int (length pattern) - 1) i of
              Some k \<Rightarrow> k
            | None \<Rightarrow> bmLoop text pattern (i + bmSkip text pattern i))
      else - 1)"
  by pat_completeness auto
termination
proof (relation "measure (\<lambda>(text, pattern, i). nat (int (length text) - i))")
  show "wf (measure (\<lambda>(text, pattern, i). nat (int (length text) - i)))"
    by simp
next
  fix t p :: "'a list" and i :: int
  assume "p \<noteq> [] \<and> i < int (length t)"
  then show "((t, p, i + bmSkip t p i), (t, p, i))
               \<in> measure (\<lambda>(text, pattern, i). nat (int (length text) - i))"
    using bmSkip_pos[of p t i] by simp
qed

definition boyerMooreSearch :: "'a list \<Rightarrow> 'a list \<Rightarrow> int" where
  "boyerMooreSearch text pattern =
     (if length pattern = 0 then 0
      else if length pattern > length text then - 1
      else bmLoop text pattern (int (length pattern) - 1))"

text \<open>The pattern \<open>p\<close> occurs in \<open>t\<close> starting at index \<open>i\<close>.\<close>

definition occursAt :: "'a list \<Rightarrow> 'a list \<Rightarrow> nat \<Rightarrow> bool" where
  "occursAt t p i = (i + length p \<le> length t \<and> take (length p) (drop i t) = p)"

subsection \<open>Correctness of the search\<close>

lemma occursAt_nth:
  "occursAt t p s \<longleftrightarrow> s + length p \<le> length t \<and> (\<forall>q<length p. t ! (s + q) = p ! q)"
  by (auto simp: occursAt_def list_eq_iff_nth_eq)

lemma bmCompare_char:
  "0 \<le> j \<Longrightarrow> j < int (length p) \<Longrightarrow> j \<le> k \<Longrightarrow> k < int (length t) \<Longrightarrow>
   bmCompare t p j k =
     (if (\<forall>d. 0 \<le> d \<and> d \<le> j \<longrightarrow> t ! nat (k - d) = p ! nat (j - d)) then Some (k - j) else None)"
proof (induction t p j k rule: bmCompare.induct)
  case (1 t p j k)
  have ca: "charAt t k = Some (t ! nat k)" "charAt p j = Some (p ! nat j)"
    using "1.prems" by (simp_all add: charAt_def)
  show ?case
  proof (cases "t ! nat k = p ! nat j")
    case False
    then have "\<not> (\<forall>d. 0 \<le> d \<and> d \<le> j \<longrightarrow> t ! nat (k - d) = p ! nat (j - d))"
      using "1.prems"(1) by (auto intro: exI[of _ 0])
    with False ca show ?thesis
      by (subst bmCompare.simps) simp
  next
    case True
    show ?thesis
    proof (cases "j = 0")
      case j0: True
      have "(\<forall>d. 0 \<le> d \<and> d \<le> j \<longrightarrow> t ! nat (k - d) = p ! nat (j - d))"
        using True j0 by auto
      with True j0 ca "1.prems" show ?thesis
        by (subst bmCompare.simps) simp
    next
      case jn: False
      have step: "bmCompare t p j k = bmCompare t p (j - 1) (k - 1)"
        using True jn ca "1.prems" by (subst bmCompare.simps) simp
      have IH: "bmCompare t p (j - 1) (k - 1) =
         (if (\<forall>d. 0 \<le> d \<and> d \<le> j - 1 \<longrightarrow> t ! nat (k - 1 - d) = p ! nat (j - 1 - d))
          then Some (k - 1 - (j - 1)) else None)"
        using "1.IH" "1.prems" True jn ca by simp
      have eq: "(\<forall>d. 0 \<le> d \<and> d \<le> j - 1 \<longrightarrow> t ! nat (k - 1 - d) = p ! nat (j - 1 - d))
          \<longleftrightarrow> (\<forall>d. 0 \<le> d \<and> d \<le> j \<longrightarrow> t ! nat (k - d) = p ! nat (j - d))"
      proof
        assume a: "\<forall>d. 0 \<le> d \<and> d \<le> j - 1 \<longrightarrow> t ! nat (k - 1 - d) = p ! nat (j - 1 - d)"
        show "\<forall>d. 0 \<le> d \<and> d \<le> j \<longrightarrow> t ! nat (k - d) = p ! nat (j - d)"
        proof (intro allI impI)
          fix d :: int assume d: "0 \<le> d \<and> d \<le> j"
          show "t ! nat (k - d) = p ! nat (j - d)"
          proof (cases "d = 0")
            case True then show ?thesis using \<open>t ! nat k = p ! nat j\<close> by simp
          next
            case False
            with d a[rule_format, of "d - 1"] show ?thesis by (simp add: algebra_simps)
          qed
        qed
      next
        assume a: "\<forall>d. 0 \<le> d \<and> d \<le> j \<longrightarrow> t ! nat (k - d) = p ! nat (j - d)"
        show "\<forall>d. 0 \<le> d \<and> d \<le> j - 1 \<longrightarrow> t ! nat (k - 1 - d) = p ! nat (j - 1 - d)"
        proof (intro allI impI)
          fix d :: int assume d: "0 \<le> d \<and> d \<le> j - 1"
          with a[rule_format, of "d + 1"] show "t ! nat (k - 1 - d) = p ! nat (j - 1 - d)"
            by (simp add: algebra_simps)
        qed
      qed
      show ?thesis unfolding step IH eq by simp
    qed
  qed
qed

lemma bmCompare_occurs:
  assumes "p \<noteq> []" "int (length p) - 1 \<le> i" "i < int (length t)"
  shows "bmCompare t p (int (length p) - 1) i =
     (if occursAt t p (nat (i - (int (length p) - 1))) then Some (i - (int (length p) - 1)) else None)"
proof -
  let ?m = "int (length p)"
  have m: "1 \<le> ?m" using assms(1) by (simp add: Suc_le_eq)
  have "(\<forall>d. 0 \<le> d \<and> d \<le> ?m - 1 \<longrightarrow> t ! nat (i - d) = p ! nat (?m - 1 - d))
     \<longleftrightarrow> occursAt t p (nat (i - (?m - 1)))"
  proof
    assume a: "\<forall>d. 0 \<le> d \<and> d \<le> ?m - 1 \<longrightarrow> t ! nat (i - d) = p ! nat (?m - 1 - d)"
    show "occursAt t p (nat (i - (?m - 1)))"
      unfolding occursAt_nth
    proof (intro conjI allI impI)
      show "nat (i - (?m - 1)) + length p \<le> length t" using assms m by linarith
    next
      fix q assume q: "q < length p"
      from a[rule_format, of "?m - 1 - int q"] q
      have "t ! nat (i - (?m - 1 - int q)) = p ! nat (?m - 1 - (?m - 1 - int q))" by simp
      moreover have "nat (i - (?m - 1 - int q)) = nat (i - (?m - 1)) + q"
        using assms m q by linarith
      ultimately show "t ! (nat (i - (?m - 1)) + q) = p ! q" by simp
    qed
  next
    assume o: "occursAt t p (nat (i - (?m - 1)))"
    show "\<forall>d. 0 \<le> d \<and> d \<le> ?m - 1 \<longrightarrow> t ! nat (i - d) = p ! nat (?m - 1 - d)"
    proof (intro allI impI)
      fix d :: int assume d: "0 \<le> d \<and> d \<le> ?m - 1"
      then have "nat (?m - 1 - d) < length p" by linarith
      with o have "t ! (nat (i - (?m - 1)) + nat (?m - 1 - d)) = p ! nat (?m - 1 - d)"
        unfolding occursAt_nth by blast
      moreover have "nat (i - (?m - 1)) + nat (?m - 1 - d) = nat (i - d)"
        using assms m d by linarith
      ultimately show "t ! nat (i - d) = p ! nat (?m - 1 - d)" by simp
    qed
  qed
  then show ?thesis
    using bmCompare_char[of "?m - 1" p i t] assms m by simp
qed

lemma bmSkip_sound:
  assumes "p \<noteq> []" "int (length p) - 1 \<le> i" "i < int (length t)"
    and "i - (int (length p) - 1) < int s" "int s < i - (int (length p) - 1) + bmSkip t p i"
  shows "\<not> occursAt t p s"
proof
  assume o: "occursAt t p s"
  let ?m = "int (length p)"
  have m: "1 \<le> ?m" using assms(1) by (simp add: Suc_le_eq)
  have sk: "bmSkip t p i \<le> ?m"
    by (auto simp: bmSkip_def badCharTable_def dest!: badCharUpto_Some split: option.splits)
  define q where "q = nat (i - int s)"
  have q: "q < length p - 1" "s + q = nat i" using assms sk m unfolding q_def by linarith+
  have pq: "p ! q = t ! nat i"
    using o q unfolding occursAt_nth by (metis less_imp_diff_less linorder_not_le not_less_iff_gr_or_eq diff_le_self)
  have ca: "charAt t i = Some (t ! nat i)" using assms m by (simp add: charAt_def)
  show False
  proof (cases "badCharTable p (t ! nat i)")
    case None
    then show False using q(1) pq badCharUpto_None[of p "length p - 1" "t ! nat i"]
      by (auto simp: badCharTable_def)
  next
    case (Some r)
    then obtain k where k: "k < length p - 1" "p ! k = t ! nat i" "r = ?m - 1 - int k"
      "\<forall>j. k < j \<and> j < length p - 1 \<longrightarrow> p ! j \<noteq> t ! nat i"
      using badCharUpto_Some[of p "length p - 1" "t ! nat i" r] by (auto simp: badCharTable_def)
    have "bmSkip t p i = r" using Some ca assms(3) by (simp add: bmSkip_def)
    moreover have "q \<le> k" using k(4) q(1) pq by (meson not_le_imp_less)
    ultimately show False using assms(4,5) k(3) q_def by linarith
  qed
qed

lemma bmLoop_correct:
  "p \<noteq> [] \<Longrightarrow> int (length p) - 1 \<le> i \<Longrightarrow>
   (\<forall>s. int s < i - (int (length p) - 1) \<longrightarrow> \<not> occursAt t p s) \<Longrightarrow>
   (bmLoop t p i = - 1 \<and> (\<forall>s. \<not> occursAt t p s)) \<or>
   (\<exists>r. bmLoop t p i = int r \<and> occursAt t p r \<and> (\<forall>s<r. \<not> occursAt t p s))"
proof (induction t p i rule: bmLoop.induct)
  case (1 t p i)
  let ?m = "int (length p)"
  show ?case
  proof (cases "i < int (length t)")
    case False
    have "\<forall>s. \<not> occursAt t p s"
    proof
      fix s show "\<not> occursAt t p s"
      proof (cases "int s < i - (?m - 1)")
        case True then show ?thesis using "1.prems"(3) by blast
      next
        case False
        with \<open>\<not> i < int (length t)\<close> show ?thesis by (auto simp: occursAt_def)
      qed
    qed
    moreover have "bmLoop t p i = - 1" using False by (subst bmLoop.simps) simp
    ultimately show ?thesis by blast
  next
    case True
    note cmp = bmCompare_occurs[OF "1.prems"(1,2) True]
    show ?thesis
    proof (cases "occursAt t p (nat (i - (?m - 1)))")
      case occ: True
      have "bmLoop t p i = i - (?m - 1)"
        using True "1.prems"(1) cmp occ by (subst bmLoop.simps) simp
      moreover have "\<forall>s<nat (i - (?m - 1)). \<not> occursAt t p s"
        using "1.prems"(2,3) by (simp add: zless_nat_eq_int_zless)
      ultimately show ?thesis using occ "1.prems"(2)
        by (intro disjI2 exI[of _ "nat (i - (?m - 1))"]) simp
    next
      case nocc: False
      have cn: "bmCompare t p (?m - 1) i = None" using cmp nocc by simp
      have step: "bmLoop t p i = bmLoop t p (i + bmSkip t p i)"
        using True "1.prems"(1) cn by (subst bmLoop.simps) simp
      have pos: "1 \<le> bmSkip t p i" using bmSkip_pos[OF "1.prems"(1)] .
      have inv: "\<forall>s. int s < i + bmSkip t p i - (?m - 1) \<longrightarrow> \<not> occursAt t p s"
      proof (intro allI impI)
        fix s assume s: "int s < i + bmSkip t p i - (?m - 1)"
        consider "int s < i - (?m - 1)" | "int s = i - (?m - 1)" | "i - (?m - 1) < int s"
          by linarith
        then show "\<not> occursAt t p s"
        proof cases
          case 1 then show ?thesis using "1.prems"(3) by blast
        next
          case 2 then have "s = nat (i - (?m - 1))" by simp
          then show ?thesis using nocc by simp
        next
          case 3
          show ?thesis
            by (rule bmSkip_sound[OF "1.prems"(1,2) True 3]) (use s in simp)
        qed
      qed
      have "(bmLoop t p (i + bmSkip t p i) = - 1 \<and> (\<forall>s. \<not> occursAt t p s)) \<or>
        (\<exists>r. bmLoop t p (i + bmSkip t p i) = int r \<and> occursAt t p r \<and> (\<forall>s<r. \<not> occursAt t p s))"
        using "1.IH"[OF _ cn "1.prems"(1) _ inv] True "1.prems"(1,2) pos by simp
      then show ?thesis unfolding step .
    qed
  qed
qed

lemma boyerMooreSearch_cases:
  "(boyerMooreSearch t p = - 1 \<and> (\<forall>s. \<not> occursAt t p s)) \<or>
   (\<exists>r. boyerMooreSearch t p = int r \<and> occursAt t p r \<and> (\<forall>s<r. \<not> occursAt t p s))"
proof (cases "p = []")
  case True
  then show ?thesis by (auto simp: boyerMooreSearch_def occursAt_def)
next
  case False
  show ?thesis
  proof (cases "length p > length t")
    case True
    then show ?thesis using False by (auto simp: boyerMooreSearch_def occursAt_def)
  next
    case le: False
    have "boyerMooreSearch t p = bmLoop t p (int (length p) - 1)"
      using False le by (simp add: boyerMooreSearch_def)
    moreover have "\<forall>s. int s < int (length p) - 1 - (int (length p) - 1) \<longrightarrow> \<not> occursAt t p s"
      by simp
    ultimately show ?thesis using bmLoop_correct[of p "int (length p) - 1" t] False by simp
  qed
qed

lemma boyerMooreSearch_found:
  assumes "occursAt t p i"
  shows "boyerMooreSearch t p = int (LEAST s. occursAt t p s)"
proof -
  from boyerMooreSearch_cases[of t p] assms obtain r where
    r: "boyerMooreSearch t p = int r" "occursAt t p r" "\<forall>s<r. \<not> occursAt t p s"
    by blast
  have "(LEAST s. occursAt t p s) = r"
    using r(2,3) by (intro Least_equality) (auto simp: not_less[symmetric])
  with r(1) show ?thesis by simp
qed

lemma boyerMooreSearch_not_found:
  "boyerMooreSearch t p = - 1 \<longleftrightarrow> (\<forall>s. \<not> occursAt t p s)"
  using boyerMooreSearch_cases[of t p] by auto

section \<open>Text normalization\<close>

text \<open>
  The regular expression class \<open>\s\<close> and the characters \<open>trim()\<close> removes are the same
  set: the white space and line terminator code points of ECMAScript.
\<close>

definition isSpace :: "int \<Rightarrow> bool" where
  "isSpace c \<longleftrightarrow>
     c \<in> {9, 10, 11, 12, 13, 32, 160, 5760, 8232, 8233, 8239, 8287, 12288, 65279}
     \<or> (8192 \<le> c \<and> c \<le> 8202)"

text \<open>The class \<open>[\r\n]\<close>.\<close>

definition isNewline :: "int \<Rightarrow> bool" where
  "isNewline c \<longleftrightarrow> c = 13 \<or> c = 10"

text \<open>
  The class of \<open>normalizeForMatching\<close>: full stop, comma, question mark, double and
  single quote, exclamation mark, em dash (U+2014), ellipsis (U+2026), en dash (U+2013).
\<close>

definition isPunctuation :: "int \<Rightarrow> bool" where
  "isPunctuation c \<longleftrightarrow> c \<in> {46, 44, 63, 34, 39, 33, 8212, 8230, 8211}"

text \<open>
  \<open>s.replace(/[class]+/g, r)\<close>: every maximal run of characters of the class is replaced by
  \<open>r\<close>.
\<close>

function replaceRuns :: "('a \<Rightarrow> bool) \<Rightarrow> 'a list \<Rightarrow> 'a list \<Rightarrow> 'a list" where
  "replaceRuns P r [] = []"
| "replaceRuns P r (c # cs) =
     (if P c then r @ replaceRuns P r (dropWhile P cs) else c # replaceRuns P r cs)"
  by pat_completeness auto
termination
  by (relation "measure (\<lambda>(P, r, s). length s)")
     (auto simp: le_imp_less_Suc length_dropWhile_le)

text \<open>\<open>s.trim()\<close>.\<close>

definition trim :: "jsstring \<Rightarrow> jsstring" where
  "trim s = rev (dropWhile isSpace (rev (dropWhile isSpace s)))"

text \<open>
  \<open>s.toLowerCase()\<close> on Basic Latin and the Latin-1 Supplement (A-Z, and U+00C0-U+00DE
  without the multiplication sign); other code units are left as they are. The proofs
  below use one fact about it only: the lower case of the empty string is empty.
\<close>

definition lowerUnit :: "int \<Rightarrow> int" where
  "lowerUnit c =
     (if (65 \<le> c \<and> c \<le> 90) \<or> (192 \<le> c \<and> c \<le> 222 \<and> c \<noteq> 215) then c + 32 else c)"

definition toLowerCase :: "jsstring \<Rightarrow> jsstring" where
  "toLowerCase s = map lowerUnit s"

definition normalizeWhitespace :: "jsstring \<Rightarrow> jsstring" where
  "normalizeWhitespace s = trim (replaceRuns isSpace [32] (replaceRuns isNewline [32] s))"

definition normalizeForMatching :: "jsstring \<Rightarrow> jsstring" where
  "normalizeForMatching s =
     trim (replaceRuns isSpace [32] (filter (\<lambda>c. \<not> isPunctuation c) (toLowerCase s)))"

text \<open>
  \<open>s.split(/\s+/)\<close>: the pieces between maximal runs of white space; a run at either end
  leaves an empty piece there, and the empty string splits into one empty piece.
\<close>

function splitAcc :: "('a \<Rightarrow> bool) \<Rightarrow> 'a list \<Rightarrow> 'a list \<Rightarrow> 'a list list" where
  "splitAcc P cur [] = [cur]"
| "splitAcc P cur (c # cs) =
     (if P c then cur # splitAcc P [] (dropWhile P cs) else splitAcc P (cur @ [c]) cs)"
  by pat_completeness auto
termination
  by (relation "measure (\<lambda>(P, cur, s). length s)")
     (auto simp: le_imp_less_Suc length_dropWhile_le)

definition splitWhitespace :: "jsstring \<Rightarrow> jsstring list" where
  "splitWhitespace s = splitAcc isSpace [] s"

text \<open>\<open>xs.join(' ')\<close>.\<close>

fun joinSpace :: "jsstring list \<Rightarrow> jsstring" where
  "joinSpace [] = []"
| "joinSpace [x] = x"
| "joinSpace (x # y # ys) = x @ [32] @ joinSpace (y # ys)"

text \<open>\<open>s.replace(/\s+/g, '')\<close>\<close>

definition stripWhitespace :: "jsstring \<Rightarrow> jsstring" where
  "stripWhitespace s = replaceRuns isSpace [] s"

section \<open>N-gram similarity\<close>

text \<open>\<open>s.includes(p)\<close>.\<close>

definition jsIncludes :: "'a list \<Rightarrow> 'a list \<Rightarrow> bool" where
  "jsIncludes s p = list_ex (occursAt s p) [0..<Suc (length s)]"

text \<open>
  The loop \<open>for (i = 0; i <= clean.length - 3; i++) ngrams.add(clean.substring(i, i + 3))\<close>
  fills a \<open>Set\<close>.
\<close>

definition ngrams :: "'a list \<Rightarrow> 'a list set" where
  "ngrams clean = set (map (\<lambda>i. take 3 (drop i clean)) [0..<length clean - 2])"

definition calculateNgramSimilarity :: "jsstring \<Rightarrow> jsstring \<Rightarrow> rat" where
  "calculateNgramSimilarity str1 str2 =
     (if length str1 = 0 \<or> length str2 = 0 then 0
      else
        let clean1 = stripWhitespace str1;
            clean2 = stripWhitespace str2;
            ngrams1 = ngrams clean1;
            ngrams2 = ngrams clean2
        in if card ngrams1 = 0 \<or> card ngrams2 = 0
           then (if jsIncludes clean1 clean2 \<or> jsIncludes clean2 clean1 then 4 / 5 else 0)
           else
             let intersection = card {ngram \<in> ngrams1. ngram \<in> ngrams2};
                 union = int (card ngrams1) + int (card ngrams2) - int intersection
             in of_nat intersection / of_int union)"

section \<open>The transcript index\<close>

text \<open>
  A \<open>TranscriptSegment\<close> is \<open>{start, duration, text}\<close>. Fields are prefixed where the
  source's name is taken in Isabelle.
\<close>

record TranscriptSegment =
  seg_start :: rat
  seg_duration :: rat
  seg_text :: jsstring

record Boundary =
  segmentIdx :: int
  startPos :: int
  endPos :: int
  b_text :: jsstring
  b_normalizedText :: jsstring

text \<open>
  A JavaScript \<open>Map\<close> keeps its keys in insertion order: an association list, where
  \<open>set\<close> overwrites in place or appends and \<open>get\<close> is \<open>map_of\<close>.
\<close>

fun mapSet :: "'k \<Rightarrow> 'v \<Rightarrow> ('k \<times> 'v) list \<Rightarrow> ('k \<times> 'v) list" where
  "mapSet k v [] = [(k, v)]"
| "mapSet k v ((k', v') # m) = (if k' = k then (k, v) # m else (k', v') # mapSet k v m)"

record TranscriptIndex =
  fullTextSpace :: jsstring
  fullTextNewline :: jsstring
  normalizedText :: jsstring
  segmentBoundaries :: "Boundary list"
  wordIndex :: "(jsstring \<times> int list) list"
  ngramIndex :: "(jsstring \<times> int set) list"

definition emptyIndex :: TranscriptIndex where
  "emptyIndex =
     \<lparr>fullTextSpace = [], fullTextNewline = [], normalizedText = [],
      segmentBoundaries = [], wordIndex = [], ngramIndex = []\<rparr>"

text \<open>
  \<open>if (word.length > 2) { positions = wordIndex.get(word) || []; positions.push(idx);
  wordIndex.set(word, positions) }\<close>
\<close>

definition addWord :: "int \<Rightarrow> (jsstring \<times> int list) list \<Rightarrow> jsstring \<Rightarrow> (jsstring \<times> int list) list" where
  "addWord idx wIndex word =
     (if length word > 2
      then mapSet word ((case map_of wIndex word of Some positions \<Rightarrow> positions | None \<Rightarrow> []) @ [idx]) wIndex
      else wIndex)"

text \<open>\<open>if (!ngramIndex.has(ngram)) ngramIndex.set(ngram, new Set()); ngramIndex.get(ngram).add(idx)\<close>\<close>

definition addNgram :: "int \<Rightarrow> (jsstring \<times> int set) list \<Rightarrow> jsstring \<Rightarrow> (jsstring \<times> int set) list" where
  "addNgram idx nIndex ngram =
     mapSet ngram (insert idx (case map_of nIndex ngram of Some segs \<Rightarrow> segs | None \<Rightarrow> {})) nIndex"

text \<open>One call of the \<open>forEach\<close> callback of \<open>buildTranscriptIndex\<close>, on \<open>(segment, idx)\<close>.\<close>

definition indexSegment :: "TranscriptIndex \<Rightarrow> TranscriptSegment \<Rightarrow> int \<Rightarrow> TranscriptIndex" where
  "indexSegment index segment idx =
     (let space1 = fullTextSpace index @ (if idx > 0 then [32] else []);
          newline1 = fullTextNewline index @ (if idx > 0 then [10] else []);
          normalized1 = normalizedText index @ (if idx > 0 then [32] else []);
          segmentStartPos = int (length space1);
          segmentNormalized = normalizeForMatching (seg_text segment);
          space2 = space1 @ seg_text segment;
          words = splitWhitespace segmentNormalized;
          cleanText = stripWhitespace segmentNormalized
      in \<lparr>fullTextSpace = space2,
          fullTextNewline = newline1 @ seg_text segment,
          normalizedText = normalized1 @ segmentNormalized,
          segmentBoundaries = segmentBoundaries index @
            [\<lparr>segmentIdx = idx, startPos = segmentStartPos, endPos = int (length space2),
              b_text = seg_text segment, b_normalizedText = segmentNormalized\<rparr>],
          wordIndex = foldl (addWord idx) (wordIndex index) words,
          ngramIndex = foldl (addNgram idx) (ngramIndex index)
            (map (\<lambda>i. take 3 (drop i cleanText)) [0..<length cleanText - 2])\<rparr>)"

fun indexFrom :: "int \<Rightarrow> TranscriptSegment list \<Rightarrow> TranscriptIndex \<Rightarrow> TranscriptIndex" where
  "indexFrom idx [] index = index"
| "indexFrom idx (segment # rest) index = indexFrom (idx + 1) rest (indexSegment index segment idx)"

definition buildTranscriptIndex :: "TranscriptSegment list \<Rightarrow> TranscriptIndex" where
  "buildTranscriptIndex transcript = indexFrom 0 transcript emptyIndex"

section \<open>Mapping a match to segments\<close>

record SegmentSpan =
  found :: bool
  startSegmentIdx :: int
  endSegmentIdx :: int
  startCharOffset :: int
  endCharOffset :: int

datatype MatchStrategy = Exact | Normalized | FuzzyNgram

record MatchResult = SegmentSpan +
  matchStrategy :: MatchStrategy
  similarity :: rat
  confidence :: rat

text \<open>
  The loop variables \<open>(startSegmentIdx, endSegmentIdx, startCharOffset, endCharOffset)\<close> of
  both mapping functions.
\<close>

type_synonym spanVars = "int \<times> int \<times> int \<times> int"

text \<open>The loop of \<open>mapMatchToSegments\<close> over the boundaries; \<open>break\<close> returns at once.\<close>

fun mapMatchLoop :: "int \<Rightarrow> int \<Rightarrow> Boundary list \<Rightarrow> spanVars \<Rightarrow> spanVars" where
  "mapMatchLoop matchStart matchEnd [] vars = vars"
| "mapMatchLoop matchStart matchEnd (boundary # rest) (startSeg, endSeg, startOff, endOff) =
     (let (startSeg', startOff') =
            (if startSeg = - 1 \<and> matchStart \<ge> startPos boundary \<and> matchStart < endPos boundary
             then (segmentIdx boundary, matchStart - startPos boundary)
             else (startSeg, startOff))
      in if matchEnd > startPos boundary \<and> matchEnd \<le> endPos boundary
         then (startSeg', segmentIdx boundary, startOff', matchEnd - startPos boundary)
         else if matchEnd > endPos boundary
         then mapMatchLoop matchStart matchEnd rest
                (startSeg', segmentIdx boundary, startOff', int (length (b_text boundary)))
         else mapMatchLoop matchStart matchEnd rest (startSeg', endSeg, startOff', endOff))"

definition spanOfVars :: "spanVars \<Rightarrow> SegmentSpan option" where
  "spanOfVars vars =
     (case vars of (startSeg, endSeg, startOff, endOff) \<Rightarrow>
        if startSeg \<noteq> - 1 \<and> endSeg \<noteq> - 1
        then Some \<lparr>found = True, startSegmentIdx = startSeg, endSegmentIdx = endSeg,
                    startCharOffset = startOff, endCharOffset = endOff\<rparr>
        else None)"

definition mapMatchToSegments :: "int \<Rightarrow> int \<Rightarrow> TranscriptIndex \<Rightarrow> SegmentSpan option" where
  "mapMatchToSegments matchStart matchLength index =
     spanOfVars (mapMatchLoop matchStart (matchStart + matchLength) (segmentBoundaries index)
       (- 1, - 1, 0, 0))"

text \<open>The loop of \<open>mapNormalizedMatchToSegments\<close>, with its running \<open>currentNormPos\<close>.\<close>

fun mapNormalizedLoop :: "int \<Rightarrow> int \<Rightarrow> Boundary list \<Rightarrow> int \<Rightarrow> spanVars \<Rightarrow> spanVars" where
  "mapNormalizedLoop normalizedMatchIdx matchEnd [] currentNormPos vars = vars"
| "mapNormalizedLoop normalizedMatchIdx matchEnd (boundary # rest) currentNormPos
       (startSeg, endSeg, startOff, endOff) =
     (let segmentNormLength = int (length (b_normalizedText boundary));
          segmentNormEnd = currentNormPos + segmentNormLength;
          (startSeg', startOff') =
            (if startSeg = - 1 \<and> normalizedMatchIdx \<ge> currentNormPos
                \<and> normalizedMatchIdx < segmentNormEnd
             then (segmentIdx boundary,
                   min (normalizedMatchIdx - currentNormPos) (int (length (b_text boundary)) - 1))
             else (startSeg, startOff))
      in if matchEnd > currentNormPos \<and> matchEnd \<le> segmentNormEnd
         then (startSeg', segmentIdx boundary, startOff',
               min (matchEnd - currentNormPos) (int (length (b_text boundary))))
         else mapNormalizedLoop normalizedMatchIdx matchEnd rest (segmentNormEnd + 1)
                (startSeg', endSeg, startOff', endOff))"

definition mapNormalizedMatchToSegments :: "int \<Rightarrow> jsstring \<Rightarrow> TranscriptIndex \<Rightarrow> SegmentSpan option" where
  "mapNormalizedMatchToSegments normalizedMatchIdx normalizedTargetText index =
     spanOfVars (mapNormalizedLoop normalizedMatchIdx
       (normalizedMatchIdx + int (length normalizedTargetText)) (segmentBoundaries index) 0
       (- 1, - 1, 0, 0))"

section \<open>The matching cascade\<close>

text \<open>
  The options \<open>findTextInTranscript\<close> reads: \<open>startIdx\<close>, \<open>minSimilarity\<close> and
  \<open>maxSegmentWindow\<close> (the \<open>strategy\<close> option is accepted and never read). The
  defaults are \<open>0\<close>, \<open>FUZZY_MATCH_THRESHOLD = 0.85\<close> and \<open>30\<close>.
\<close>

record Options =
  startIdx :: int
  minSimilarity :: rat
  maxSegmentWindow :: int

definition defaultOptions :: Options where
  "defaultOptions = \<lparr>startIdx = 0, minSimilarity = 17 / 20, maxSegmentWindow = 30\<rparr>"

text \<open>\<open>{...result, matchStrategy, similarity, confidence}\<close>\<close>

definition withStrategy :: "SegmentSpan \<Rightarrow> MatchStrategy \<Rightarrow> rat \<Rightarrow> rat \<Rightarrow> MatchResult" where
  "withStrategy result strategy sim conf =
     \<lparr>found = found result, startSegmentIdx = startSegmentIdx result,
      endSegmentIdx = endSegmentIdx result, startCharOffset = startCharOffset result,
      endCharOffset = endCharOffset result,
      matchStrategy = strategy, similarity = sim, confidence = conf\<rparr>"

text \<open>\<open>normalizeForMatching(targetText).split(/\s+/).filter(w => w.length > 2)\<close>\<close>

definition targetWordsOf :: "jsstring \<Rightarrow> jsstring list" where
  "targetWordsOf targetText =
     filter (\<lambda>w. length w > 2) (splitWhitespace (normalizeForMatching targetText))"

text \<open>
  The tally \<open>segmentScores\<close>: for every target word, for every entry \<open>segIdx\<close> of its
  posting list with \<open>segIdx >= startIdx\<close>,
  \<open>segmentScores.set(segIdx, (segmentScores.get(segIdx) || 0) + 1)\<close>.
\<close>

definition voteSegment :: "int \<Rightarrow> (int \<times> int) list \<Rightarrow> int \<Rightarrow> (int \<times> int) list" where
  "voteSegment fromIdx segmentScores segIdx =
     (if segIdx \<ge> fromIdx
      then mapSet segIdx ((case map_of segmentScores segIdx of Some n \<Rightarrow> n | None \<Rightarrow> 0) + 1)
             segmentScores
      else segmentScores)"

definition voteWord :: "TranscriptIndex \<Rightarrow> int \<Rightarrow> (int \<times> int) list \<Rightarrow> jsstring \<Rightarrow> (int \<times> int) list" where
  "voteWord index fromIdx segmentScores word =
     foldl (voteSegment fromIdx) segmentScores
       (case map_of (wordIndex index) word of Some segments \<Rightarrow> segments | None \<Rightarrow> [])"

definition tallyVotes :: "TranscriptIndex \<Rightarrow> int \<Rightarrow> jsstring list \<Rightarrow> (int \<times> int) list" where
  "tallyVotes index fromIdx targetWords = foldl (voteWord index fromIdx) [] targetWords"

text \<open>
  \<open>Array.from(segmentScores.entries()).sort((a, b) => b[1] - a[1]).slice(0, 15)\<close>: a stable
  sort by descending score.
\<close>

definition scoredSegments :: "(int \<times> int) list \<Rightarrow> (int \<times> int) list" where
  "scoredSegments segmentScores = take 15 (sort_key (\<lambda>entry. - snd entry) segmentScores)"

text \<open>
  The inner loop \<open>for (i = windowStart; i <= windowEnd; i++)\<close>: it returns \<open>(i, similarity)\<close>
  at the first \<open>i\<close> whose window reaches \<open>minSimilarity\<close>. Every \<open>i\<close> it reads lies in
  \<open>0 .. transcript.length - 1\<close>, by the bounds of the window.
\<close>

function growWindow ::
  "TranscriptSegment list \<Rightarrow> jsstring \<Rightarrow> rat \<Rightarrow> int \<Rightarrow> int \<Rightarrow> int \<Rightarrow> jsstring \<Rightarrow> (int \<times> rat) option" where
  "growWindow transcript targetText minSim windowStart windowEnd i combinedText =
     (if i \<le> windowEnd
      then
        (let combined = (if i > windowStart then combinedText @ [32] else combinedText)
                          @ seg_text (transcript ! nat i);
             normalizedCombined = normalizeForMatching combined;
             sim = calculateNgramSimilarity (normalizeForMatching targetText) normalizedCombined
         in if sim \<ge> minSim then Some (i, sim)
            else growWindow transcript targetText minSim windowStart windowEnd (i + 1) combined)
      else None)"
  by pat_completeness auto
termination
  by (relation "measure (\<lambda>(transcript, targetText, minSim, windowStart, windowEnd, i, combinedText).
        nat (windowEnd + 1 - i))") auto

text \<open>The loop \<open>for (const [candidateIdx, score] of scoredSegments)\<close>.\<close>

fun tryCandidates ::
  "TranscriptSegment list \<Rightarrow> jsstring \<Rightarrow> Options \<Rightarrow> nat \<Rightarrow> (int \<times> int) list \<Rightarrow> MatchResult option" where
  "tryCandidates transcript targetText options nTargetWords [] = None"
| "tryCandidates transcript targetText options nTargetWords ((candidateIdx, score) # rest) =
     (let windowStart = max 0 (candidateIdx - 2);
          windowEnd = min (int (length transcript) - 1) (candidateIdx + maxSegmentWindow options)
      in case growWindow transcript targetText (minSimilarity options) windowStart windowEnd
                windowStart [] of
           Some (i, sim) \<Rightarrow>
             Some \<lparr>found = True, startSegmentIdx = windowStart, endSegmentIdx = i,
                   startCharOffset = 0,
                   endCharOffset = int (length (seg_text (transcript ! nat i))),
                   matchStrategy = FuzzyNgram, similarity = sim,
                   confidence = min 1 (of_int score / of_nat nTargetWords)\<rparr>
         | None \<Rightarrow> tryCandidates transcript targetText options nTargetWords rest)"

text \<open>The third strategy of \<open>findTextInTranscript\<close>: the word index vote and the windows.\<close>

definition fuzzyMatch ::
  "TranscriptSegment list \<Rightarrow> jsstring \<Rightarrow> TranscriptIndex \<Rightarrow> Options \<Rightarrow> MatchResult option" where
  "fuzzyMatch transcript targetText index options =
     (let targetWords = targetWordsOf targetText
      in if length targetWords > 0
         then tryCandidates transcript targetText options (length targetWords)
                (scoredSegments (tallyVotes index (startIdx options) targetWords))
         else None)"

definition exactMatch :: "jsstring \<Rightarrow> TranscriptIndex \<Rightarrow> SegmentSpan option" where
  "exactMatch targetText index =
     (let exactIdx = boyerMooreSearch (fullTextSpace index) targetText
      in if exactIdx \<noteq> - 1
         then mapMatchToSegments exactIdx (int (length targetText)) index
         else None)"

definition normalizedMatch :: "jsstring \<Rightarrow> TranscriptIndex \<Rightarrow> SegmentSpan option" where
  "normalizedMatch targetText index =
     (let normalizedTarget = normalizeWhitespace targetText;
          normalizedIdx = boyerMooreSearch (normalizedText index) normalizedTarget
      in if normalizedIdx \<noteq> - 1
         then mapNormalizedMatchToSegments normalizedIdx normalizedTarget index
         else None)"

definition findTextInTranscript ::
  "TranscriptSegment list \<Rightarrow> jsstring \<Rightarrow> TranscriptIndex \<Rightarrow> Options \<Rightarrow> MatchResult option" where
  "findTextInTranscript transcript targetText index options =
     (case exactMatch targetText index of
        Some result \<Rightarrow> Some (withStrategy result Exact 1 1)
      | None \<Rightarrow>
          (case normalizedMatch targetText index of
             Some result \<Rightarrow> Some (withStrategy result Normalized (19 / 20) (19 / 20))
           | None \<Rightarrow> fuzzyMatch transcript targetText index options))"

section \<open>Per-quote resolution\<close>

record Quote =
  q_timestamp :: jsstring
  q_text :: jsstring

record Highlight =
  hl_start :: rat
  hl_end :: rat
  hl_text :: jsstring
  hl_startSegmentIdx :: int
  hl_endSegmentIdx :: int
  hl_startCharOffset :: int
  hl_endCharOffset :: int
  hasCompleteSentences :: bool
  hl_confidence :: rat

text \<open>
  Reading a field of \<open>transcript[i]\<close> throws a \<open>TypeError\<close> when \<open>i\<close> is out of range.
\<close>

datatype error = TypeError

definition segmentAt :: "TranscriptSegment list \<Rightarrow> int \<Rightarrow> error + TranscriptSegment" where
  "segmentAt transcript i =
     (if 0 \<le> i \<and> i < int (length transcript) then Inr (transcript ! nat i) else Inl TypeError)"

text \<open>The object returned for a match: the same in the global and in the constrained branch.\<close>

definition highlightOfMatch ::
  "TranscriptSegment list \<Rightarrow> jsstring \<Rightarrow> MatchResult \<Rightarrow> error + Highlight" where
  "highlightOfMatch transcript quoteText m =
     (case segmentAt transcript (startSegmentIdx m) of
        Inl e \<Rightarrow> Inl e
      | Inr startSegment \<Rightarrow>
          (case segmentAt transcript (endSegmentIdx m) of
             Inl e \<Rightarrow> Inl e
           | Inr endSegment \<Rightarrow>
               Inr \<lparr>hl_start = seg_start startSegment,
                    hl_end = seg_start endSegment + seg_duration endSegment,
                    hl_text = quoteText,
                    hl_startSegmentIdx = startSegmentIdx m,
                    hl_endSegmentIdx = endSegmentIdx m,
                    hl_startCharOffset = startCharOffset m,
                    hl_endCharOffset = endCharOffset m,
                    hasCompleteSentences = (matchStrategy m \<noteq> FuzzyNgram),
                    hl_confidence = confidence m\<rparr>))"

text \<open>
  The segments overlapping the timestamp range, with their indices:
  \<open>segment.start <= timestampEnd && segment.start + segment.duration >= timestampStart\<close>.
\<close>

definition segmentsInRange ::
  "TranscriptSegment list \<Rightarrow> rat \<Rightarrow> rat \<Rightarrow> (int \<times> TranscriptSegment) list" where
  "segmentsInRange transcript timestampStart timestampEnd =
     filter (\<lambda>(i, segment). seg_start segment \<le> timestampEnd
                \<and> seg_start segment + seg_duration segment \<ge> timestampStart)
       (zip (map int [0..<length transcript]) transcript)"

definition globalOptions :: Options where
  "globalOptions = \<lparr>startIdx = 0, minSimilarity = 4 / 5, maxSegmentWindow = 20\<rparr>"

definition rangeOptions :: "int \<Rightarrow> int \<Rightarrow> Options" where
  "rangeOptions startSearchIdx endSearchIdx =
     \<lparr>startIdx = max 0 (startSearchIdx - 2), minSimilarity = 3 / 4,
      maxSegmentWindow = min 20 (endSearchIdx - startSearchIdx + 5)\<rparr>"

text \<open>
  The constrained re-run and its test
  \<open>rangeMatch && rangeMatch.startSegmentIdx <= endSearchIdx + 2\<close>.
\<close>

definition constrainedMatch ::
  "TranscriptSegment list \<Rightarrow> jsstring \<Rightarrow> TranscriptIndex \<Rightarrow> int \<Rightarrow> int \<Rightarrow> MatchResult option" where
  "constrainedMatch transcript quoteText index startSearchIdx endSearchIdx =
     (case findTextInTranscript transcript quoteText index
             (rangeOptions startSearchIdx endSearchIdx) of
        Some rangeMatch \<Rightarrow>
          if startSegmentIdx rangeMatch \<le> endSearchIdx + 2 then Some rangeMatch else None
      | None \<Rightarrow> None)"

text \<open>The final fallback over the overlapping segments (a non-empty list).\<close>

definition fallbackHighlight :: "(int \<times> TranscriptSegment) list \<Rightarrow> Highlight" where
  "fallbackHighlight inRange =
     (let firstSegment = hd inRange; lastSegment = last inRange
      in \<lparr>hl_start = seg_start (snd firstSegment),
          hl_end = seg_start (snd lastSegment) + seg_duration (snd lastSegment),
          hl_text = joinSpace (map (\<lambda>s. seg_text (snd s)) inRange),
          hl_startSegmentIdx = fst firstSegment,
          hl_endSegmentIdx = fst lastSegment,
          hl_startCharOffset = 0,
          hl_endCharOffset = int (length (seg_text (snd lastSegment))),
          hasCompleteSentences = False,
          hl_confidence = 1 / 2\<rparr>)"

text \<open>
  The callback of \<open>quotes.map\<close> in \<open>findExactQuotes\<close>: \<open>Inr None\<close> is its \<open>null\<close>.
  \<open>parseTimestampRange\<close> comes from a module outside the sources and is a parameter: it
  returns \<open>{start, end}\<close> or \<open>null\<close>.
\<close>

definition resolveQuote ::
  "(jsstring \<Rightarrow> (rat \<times> rat) option) \<Rightarrow> TranscriptSegment list \<Rightarrow> TranscriptIndex \<Rightarrow> Quote
     \<Rightarrow> error + Highlight option" where
  "resolveQuote parseTimestampRange transcript index quote =
     (case (if q_timestamp quote \<noteq> [] then parseTimestampRange (q_timestamp quote) else None) of
        None \<Rightarrow> Inr None
      | Some (timestampStart, timestampEnd) \<Rightarrow>
          (let quoteText = trim (q_text quote)
           in if quoteText = [] then Inr None
              else
                (case findTextInTranscript transcript quoteText index globalOptions of
                   Some m \<Rightarrow> map_sum id Some (highlightOfMatch transcript quoteText m)
                 | None \<Rightarrow>
                     (let inRange = segmentsInRange transcript timestampStart timestampEnd
                      in if length inRange = 0 then Inr None
                         else
                           (case constrainedMatch transcript quoteText index
                                   (fst (hd inRange)) (fst (last inRange)) of
                              Some rangeMatch \<Rightarrow>
                                map_sum id Some (highlightOfMatch transcript quoteText rangeMatch)
                            | None \<Rightarrow> Inr (Some (fallbackHighlight inRange)))))))"

text \<open>
  \<open>findExactQuotes\<close>: every quote is resolved on its own and the \<open>null\<close>s are filtered
  out; an exception of one callback rejects the whole \<open>Promise.all\<close>.
\<close>

fun collectResolved :: "(error + Highlight option) list \<Rightarrow> error + Highlight list" where
  "collectResolved [] = Inr []"
| "collectResolved (Inl e # rest) = Inl e"
| "collectResolved (Inr r # rest) =
     (case collectResolved rest of
        Inl e \<Rightarrow> Inl e
      | Inr hs \<Rightarrow> Inr (case r of Some h \<Rightarrow> h # hs | None \<Rightarrow> hs))"

definition findExactQuotes ::
  "(jsstring \<Rightarrow> (rat \<times> rat) option) \<Rightarrow> TranscriptSegment list \<Rightarrow> Quote list \<Rightarrow> TranscriptIndex
     \<Rightarrow> error + Highlight list" where
  "findExactQuotes parseTimestampRange transcript quotes index =
     collectResolved (map (resolveQuote parseTimestampRange transcript index) quotes)"

section \<open>Helper lemmas on the text utilities\<close>

lemma replaceRuns_empty: "replaceRuns P [] s = filter (\<lambda>c. \<not> P c) s"
proof (induction "length s" arbitrary: s rule: less_induct)
  case less
  show ?case
  proof (cases s)
    case Nil
    then show ?thesis by simp
  next
    case (Cons c cs)
    show ?thesis
    proof (cases "P c")
      case True
      have "length (dropWhile P cs) < length s"
        using Cons by (simp add: le_imp_less_Suc length_dropWhile_le)
      from less[OF this]
      have "replaceRuns P [] (dropWhile P cs) = filter (\<lambda>c. \<not> P c) (dropWhile P cs)" .
      moreover have "filter (\<lambda>c. \<not> P c) (dropWhile P cs) = filter (\<lambda>c. \<not> P c) cs"
        by (induction cs) auto
      ultimately show ?thesis using Cons True by simp
    next
      case False
      then show ?thesis using Cons less[of cs] by simp
    qed
  qed
qed

lemma stripWhitespace_filter: "stripWhitespace s = filter (\<lambda>c. \<not> isSpace c) s"
  by (simp add: stripWhitespace_def replaceRuns_empty)

lemma jsIncludes_iff: "jsIncludes s p \<longleftrightarrow> (\<exists>i. occursAt s p i)"
proof
  assume "jsIncludes s p"
  then show "\<exists>i. occursAt s p i" by (auto simp: jsIncludes_def list_ex_iff)
next
  assume "\<exists>i. occursAt s p i"
  then obtain i where i: "occursAt s p i" ..
  then have "i \<in> set [0..<Suc (length s)]"
    by (simp add: occursAt_def less_Suc_eq_le del: upt_Suc)
  with i show "jsIncludes s p" unfolding jsIncludes_def list_ex_iff by blast
qed

lemma card_ngrams_0: "card (ngrams clean) = 0 \<longleftrightarrow> length clean < 3"
  by (auto simp: ngrams_def)

section \<open>The index as a function of the transcript\<close>

text \<open>What the index holds, as functions of the transcript.\<close>

fun joinFrom :: "int \<Rightarrow> jsstring list \<Rightarrow> jsstring" where
  "joinFrom idx [] = []"
| "joinFrom idx (t # ts) = (if idx > 0 then [32] else []) @ t @ joinFrom (idx + 1) ts"

fun boundariesFrom :: "int \<Rightarrow> int \<Rightarrow> TranscriptSegment list \<Rightarrow> Boundary list" where
  "boundariesFrom idx pos [] = []"
| "boundariesFrom idx pos (s # ss) =
     \<lparr>segmentIdx = idx, startPos = pos, endPos = pos + int (length (seg_text s)),
      b_text = seg_text s, b_normalizedText = normalizeForMatching (seg_text s)\<rparr>
     # boundariesFrom (idx + 1) (pos + int (length (seg_text s)) + 1) ss"

lemma indexSegment_fields:
  "fullTextSpace (indexSegment ix s idx) = fullTextSpace ix @ (if idx > 0 then [32] else []) @ seg_text s"
  "normalizedText (indexSegment ix s idx) =
     normalizedText ix @ (if idx > 0 then [32] else []) @ normalizeForMatching (seg_text s)"
  "segmentBoundaries (indexSegment ix s idx) = segmentBoundaries ix @
     [\<lparr>segmentIdx = idx,
       startPos = int (length (fullTextSpace ix)) + (if idx > 0 then 1 else 0),
       endPos = int (length (fullTextSpace ix)) + (if idx > 0 then 1 else 0) + int (length (seg_text s)),
       b_text = seg_text s, b_normalizedText = normalizeForMatching (seg_text s)\<rparr>]"
  "wordIndex (indexSegment ix s idx) =
     foldl (addWord idx) (wordIndex ix) (splitWhitespace (normalizeForMatching (seg_text s)))"
  by (simp_all add: indexSegment_def Let_def)

lemma fullTextSpace_indexFrom:
  "fullTextSpace (indexFrom idx ss ix) = fullTextSpace ix @ joinFrom idx (map seg_text ss)"
  by (induction ss arbitrary: idx ix) (simp_all add: indexSegment_fields)

lemma normalizedText_indexFrom:
  "normalizedText (indexFrom idx ss ix) =
     normalizedText ix @ joinFrom idx (map (\<lambda>s. normalizeForMatching (seg_text s)) ss)"
  by (induction ss arbitrary: idx ix) (simp_all add: indexSegment_fields)

lemma segmentBoundaries_indexFrom:
  "0 \<le> idx \<Longrightarrow>
   segmentBoundaries (indexFrom idx ss ix) = segmentBoundaries ix @
     boundariesFrom idx (int (length (fullTextSpace ix)) + (if idx > 0 then 1 else 0)) ss"
proof (induction ss arbitrary: idx ix)
  case Nil
  then show ?case by simp
next
  case (Cons s ss)
  have "0 \<le> idx + 1" using Cons.prems by simp
  from Cons.IH[OF this, of "indexSegment ix s idx"] Cons.prems
  show ?case by (simp add: indexSegment_fields)
qed

lemma joinFrom_0: "joinFrom 0 ts = joinSpace ts"
proof -
  have pos: "0 < k \<Longrightarrow> joinFrom k ts = concat (map (\<lambda>t. 32 # t) ts)" for k ts
    by (induction ts arbitrary: k) simp_all
  have js: "joinSpace (t # ts) = t @ concat (map (\<lambda>t. 32 # t) ts)" for t ts
    by (induction ts arbitrary: t) simp_all
  show ?thesis
    by (cases ts) (simp_all add: pos js)
qed

lemma fullTextSpace_build:
  "fullTextSpace (buildTranscriptIndex tr) = joinSpace (map seg_text tr)"
  by (simp add: buildTranscriptIndex_def fullTextSpace_indexFrom emptyIndex_def joinFrom_0)

lemma normalizedText_build:
  "normalizedText (buildTranscriptIndex tr) = joinSpace (map (\<lambda>s. normalizeForMatching (seg_text s)) tr)"
  by (simp add: buildTranscriptIndex_def normalizedText_indexFrom emptyIndex_def joinFrom_0)

lemma segmentBoundaries_build:
  "segmentBoundaries (buildTranscriptIndex tr) = boundariesFrom 0 0 tr"
  using segmentBoundaries_indexFrom[of 0 tr emptyIndex]
  by (simp add: buildTranscriptIndex_def emptyIndex_def)

section \<open>Invariants of the two mapping loops\<close>

definition textLen :: "TranscriptSegment list \<Rightarrow> int \<Rightarrow> int" where
  "textLen tr k = int (length (seg_text (tr ! nat k)))"

definition exactInv :: "TranscriptSegment list \<Rightarrow> int \<Rightarrow> spanVars \<Rightarrow> bool" where
  "exactInv tr lo v =
     (case v of (startSeg, endSeg, startOff, endOff) \<Rightarrow>
        (startSeg \<noteq> - 1 \<longrightarrow>
           0 \<le> startSeg \<and> startSeg < lo \<and> 0 \<le> startOff \<and> startOff < textLen tr startSeg
           \<and> endSeg \<noteq> - 1 \<and> startSeg \<le> endSeg \<and> (startSeg = endSeg \<longrightarrow> startOff < endOff))
        \<and> (endSeg \<noteq> - 1 \<longrightarrow>
             0 \<le> endSeg \<and> endSeg < lo \<and> 0 \<le> endOff \<and> endOff \<le> textLen tr endSeg))"

lemma exactInv_mono: "exactInv tr lo v \<Longrightarrow> lo \<le> lo' \<Longrightarrow> exactInv tr lo' v"
  by (auto simp: exactInv_def split: prod.splits)

lemma drop_Cons_nth:
  assumes "drop (nat idx) tr = s # ss" "0 \<le> idx"
  shows "nat idx < length tr" "tr ! nat idx = s" "drop (nat (idx + 1)) tr = ss"
proof -
  show lt: "nat idx < length tr" using assms(1) by (cases "nat idx < length tr") auto
  from Cons_nth_drop_Suc[OF lt] assms(1) show "tr ! nat idx = s" by simp
  have "nat (idx + 1) = Suc (nat idx)" using assms(2) by simp
  with Cons_nth_drop_Suc[OF lt] assms(1) show "drop (nat (idx + 1)) tr = ss" by simp
qed

lemma mapMatchLoop_inv:
  assumes "matchStart < matchEnd" "0 \<le> idx" "drop (nat idx) tr = ss" "exactInv tr idx v"
    "idx \<le> int (length tr)"
  shows "exactInv tr (int (length tr))
           (mapMatchLoop matchStart matchEnd (boundariesFrom idx pos ss) v)"
  using assms(2-)
proof (induction ss arbitrary: idx pos v)
  case Nil
  then show ?case using exactInv_mono[of tr idx v "int (length tr)"] by simp
next
  case (Cons s ss)
  note d = drop_Cons_nth[OF Cons.prems(2) Cons.prems(1)]
  obtain a b c e where v: "v = (a, b, c, e)" by (cases v) auto
  have idx1: "0 \<le> idx + 1" using Cons.prems(1) by simp
  have le: "idx + 1 \<le> int (length tr)" using d(1) Cons.prems(1) by linarith
  have tl: "textLen tr idx = int (length (seg_text s))" by (simp add: textLen_def d(2))
  let ?L = "int (length (seg_text s))"
  define a' where "a' = (if a = - 1 \<and> matchStart \<ge> pos \<and> matchStart < pos + ?L then idx else a)"
  define c' where "c' = (if a = - 1 \<and> matchStart \<ge> pos \<and> matchStart < pos + ?L then matchStart - pos else c)"
  have inv: "exactInv tr idx (a, b, c, e)" using Cons.prems(3) v by simp
  consider (brk) "matchEnd > pos \<and> matchEnd \<le> pos + ?L"
    | (past) "\<not> (matchEnd > pos \<and> matchEnd \<le> pos + ?L)" "matchEnd > pos + ?L"
    | (before) "\<not> (matchEnd > pos \<and> matchEnd \<le> pos + ?L)" "\<not> matchEnd > pos + ?L"
    by blast
  then show ?case
  proof cases
    case brk
    have res: "mapMatchLoop matchStart matchEnd (boundariesFrom idx pos (s # ss)) v
                 = (a', idx, c', matchEnd - pos)"
      using brk by (simp add: v a'_def c'_def)
    have "exactInv tr (idx + 1) (a', idx, c', matchEnd - pos)"
      using inv brk assms(1) Cons.prems(1) tl
      by (auto simp: exactInv_def a'_def c'_def)
    from exactInv_mono[OF this le] res show ?thesis by simp
  next
    case past
    have res: "mapMatchLoop matchStart matchEnd (boundariesFrom idx pos (s # ss)) v
                 = mapMatchLoop matchStart matchEnd (boundariesFrom (idx + 1) (pos + ?L + 1) ss)
                     (a', idx, c', ?L)"
      using past by (simp add: v a'_def c'_def)
    have "exactInv tr (idx + 1) (a', idx, c', ?L)"
      using inv past assms(1) Cons.prems(1) tl
      by (auto simp: exactInv_def a'_def c'_def)
    from Cons.IH[OF idx1 d(3) this le] res show ?thesis by simp
  next
    case before
    have nc: "\<not> (a = - 1 \<and> matchStart \<ge> pos \<and> matchStart < pos + ?L)"
      using before assms(1) by linarith
    have res: "mapMatchLoop matchStart matchEnd (boundariesFrom idx pos (s # ss)) v
                 = mapMatchLoop matchStart matchEnd (boundariesFrom (idx + 1) (pos + ?L + 1) ss)
                     (a, b, c, e)"
      using before nc by (auto simp: v)
    have "exactInv tr (idx + 1) (a, b, c, e)"
      using exactInv_mono[OF inv, of "idx + 1"] by simp
    from Cons.IH[OF idx1 d(3) this le] res show ?thesis by simp
  qed
qed

definition spanGood :: "TranscriptSegment list \<Rightarrow> spanVars \<Rightarrow> bool" where
  "spanGood tr v =
     (case v of (startSeg, endSeg, startOff, endOff) \<Rightarrow>
        startSeg \<noteq> - 1 \<and> endSeg \<noteq> - 1 \<longrightarrow>
          0 \<le> startSeg \<and> startSeg \<le> endSeg \<and> endSeg < int (length tr)
          \<and> 0 \<le> startOff \<and> startOff \<le> textLen tr startSeg
          \<and> 0 \<le> endOff \<and> endOff \<le> textLen tr endSeg
          \<and> (startSeg = endSeg \<longrightarrow> startOff < endOff))"

lemma exactInv_spanGood: "exactInv tr (int (length tr)) v \<Longrightarrow> spanGood tr v"
  by (auto simp: exactInv_def spanGood_def split: prod.splits)

lemma replaceRuns_Nil_iff: "r \<noteq> [] \<Longrightarrow> replaceRuns P r s = [] \<longleftrightarrow> s = []"
  by (cases s) auto

lemma normalizeForMatching_Nil [simp]: "normalizeForMatching [] = []"
  by (simp add: normalizeForMatching_def toLowerCase_def trim_def)

lemma mapNormalizedLoop_inv:
  assumes "m < mE" "0 \<le> idx" "idx \<le> int (length tr)" "drop (nat idx) tr = ss"
    "a \<noteq> - 1 \<longrightarrow> 0 \<le> a \<and> a < idx \<and> 0 \<le> c \<and> c < textLen tr a"
  shows "spanGood tr (mapNormalizedLoop m mE (boundariesFrom idx pos ss) cur (a, - 1, c, e))"
  using assms(2-)
proof (induction ss arbitrary: idx pos cur a c)
  case Nil
  then show ?case by (simp add: spanGood_def)
next
  case (Cons s ss)
  note d = drop_Cons_nth[OF Cons.prems(3) Cons.prems(1)]
  have idx1: "0 \<le> idx + 1" using Cons.prems(1) by simp
  have le: "idx + 1 \<le> int (length tr)" using d(1) Cons.prems(1) by linarith
  have tl: "textLen tr idx = int (length (seg_text s))" by (simp add: textLen_def d(2))
  let ?L = "int (length (seg_text s))"
  let ?N = "int (length (normalizeForMatching (seg_text s)))"
  let ?hit = "a = - 1 \<and> m \<ge> cur \<and> m < cur + ?N"
  define a' where "a' = (if ?hit then idx else a)"
  define c' where "c' = (if ?hit then min (m - cur) (?L - 1) else c)"
  have L1: "?hit \<Longrightarrow> 1 \<le> ?L"
  proof -
    assume ?hit
    then have "normalizeForMatching (seg_text s) \<noteq> []" by auto
    then have "seg_text s \<noteq> []" by auto
    then show "1 \<le> ?L" by (simp add: Suc_le_eq)
  qed
  have inv': "a' \<noteq> - 1 \<longrightarrow> 0 \<le> a' \<and> a' < idx + 1 \<and> 0 \<le> c' \<and> c' < textLen tr a'"
    using Cons.prems(4) Cons.prems(1) L1 tl by (auto simp: a'_def c'_def)
  show ?case
  proof (cases "mE > cur \<and> mE \<le> cur + ?N")
    case True
    have res: "mapNormalizedLoop m mE (boundariesFrom idx pos (s # ss)) cur (a, - 1, c, e)
                 = (a', idx, c', min (mE - cur) ?L)"
      using True by (simp add: a'_def c'_def Let_def)
    have "spanGood tr (a', idx, c', min (mE - cur) ?L)"
      using Cons.prems(4) True assms(1) le Cons.prems(1) tl L1
      by (auto simp: spanGood_def a'_def c'_def)
    with res show ?thesis by simp
  next
    case False
    have res: "mapNormalizedLoop m mE (boundariesFrom idx pos (s # ss)) cur (a, - 1, c, e)
                 = mapNormalizedLoop m mE (boundariesFrom (idx + 1) (pos + ?L + 1) ss)
                     (cur + ?N + 1) (a', - 1, c', e)"
      using False by (auto simp: a'_def c'_def Let_def)
    from Cons.IH[OF idx1 le d(3) inv'] res show ?thesis by simp
  qed
qed

lemma mapNormalizedLoop_no_end:
  "mE \<le> cur \<Longrightarrow> fst (snd (mapNormalizedLoop m mE bs cur (a, - 1, c, e))) = - 1"
proof (induction bs arbitrary: cur a c)
  case Nil
  then show ?case by simp
next
  case (Cons b bs)
  let ?N = "int (length (b_normalizedText b))"
  have "mE \<le> cur + ?N + 1" using Cons.prems by simp
  from Cons.IH[OF this] Cons.prems show ?case by (simp add: Let_def)
qed

lemma spanOfVars_Some:
  "spanOfVars v = Some r \<Longrightarrow>
     v = (startSegmentIdx r, endSegmentIdx r, startCharOffset r, endCharOffset r)
     \<and> startSegmentIdx r \<noteq> - 1 \<and> endSegmentIdx r \<noteq> - 1"
  by (auto simp: spanOfVars_def split: prod.splits if_splits)

definition resultGood :: "TranscriptSegment list \<Rightarrow> int \<Rightarrow> int \<Rightarrow> int \<Rightarrow> int \<Rightarrow> bool" where
  "resultGood tr startSeg endSeg startOff endOff \<longleftrightarrow>
     0 \<le> startSeg \<and> startSeg \<le> endSeg \<and> endSeg < int (length tr)
     \<and> 0 \<le> startOff \<and> startOff \<le> textLen tr startSeg
     \<and> 0 \<le> endOff \<and> endOff \<le> textLen tr endSeg
     \<and> (startSeg = endSeg \<longrightarrow> startOff < endOff)"

lemma exactMatch_good:
  assumes "exactMatch q (buildTranscriptIndex tr) = Some r" "q \<noteq> []"
  shows "resultGood tr (startSegmentIdx r) (endSegmentIdx r) (startCharOffset r) (endCharOffset r)"
proof -
  let ?ix = "buildTranscriptIndex tr"
  let ?k = "boyerMooreSearch (fullTextSpace ?ix) q"
  from assms(1) have sp: "spanOfVars (mapMatchLoop ?k (?k + int (length q)) (boundariesFrom 0 0 tr)
       (- 1, - 1, 0, 0)) = Some r"
    by (simp add: exactMatch_def Let_def mapMatchToSegments_def segmentBoundaries_build
        split: if_splits)
  have lt: "?k < ?k + int (length q)" using assms(2) by simp
  have "exactInv tr 0 (- 1, - 1, 0, 0)" by (simp add: exactInv_def)
  from mapMatchLoop_inv[OF lt _ _ this, of tr 0] 
  have "spanGood tr (mapMatchLoop ?k (?k + int (length q)) (boundariesFrom 0 0 tr) (- 1, - 1, 0, 0))"
    by (simp add: exactInv_spanGood)
  with spanOfVars_Some[OF sp] show ?thesis
    by (simp add: spanGood_def resultGood_def)
qed

lemma normalizedMatch_good:
  assumes "normalizedMatch q (buildTranscriptIndex tr) = Some r"
  shows "resultGood tr (startSegmentIdx r) (endSegmentIdx r) (startCharOffset r) (endCharOffset r)"
proof -
  let ?ix = "buildTranscriptIndex tr"
  let ?t = "normalizeWhitespace q"
  let ?k = "boyerMooreSearch (normalizedText ?ix) ?t"
  from assms(1) have sp: "spanOfVars (mapNormalizedLoop ?k (?k + int (length ?t))
       (boundariesFrom 0 0 tr) 0 (- 1, - 1, 0, 0)) = Some r"
    by (simp add: normalizedMatch_def Let_def mapNormalizedMatchToSegments_def
        segmentBoundaries_build split: if_splits)
  show ?thesis
  proof (cases "?t = []")
    case True
    then have k0: "?k = 0" by (simp add: boyerMooreSearch_def)
    have "fst (snd (mapNormalizedLoop 0 0 (boundariesFrom 0 0 tr) 0 (- 1, - 1, 0, 0))) = - 1"
      by (rule mapNormalizedLoop_no_end) simp
    with spanOfVars_Some[OF sp] True k0 show ?thesis by simp
  next
    case False
    then have lt: "?k < ?k + int (length ?t)" by simp
    from mapNormalizedLoop_inv[OF lt, of 0 tr tr "- 1" 0 0 0 0]
    have "spanGood tr (mapNormalizedLoop ?k (?k + int (length ?t)) (boundariesFrom 0 0 tr) 0
            (- 1, - 1, 0, 0))"
      by simp
    with spanOfVars_Some[OF sp] show ?thesis
      by (simp add: spanGood_def resultGood_def)
  qed
qed

section \<open>The fuzzy strategy: windows and candidates\<close>

lemma growWindow_Some:
  "growWindow tr t minSim ws we i comb = Some (j, sim) \<Longrightarrow> i \<le> j \<and> j \<le> we \<and> minSim \<le> sim"
proof (induction tr t minSim ws we i comb rule: growWindow.induct)
  case (1 tr t minSim ws we i comb)
  let ?comb = "(if i > ws then comb @ [32] else comb) @ seg_text (tr ! nat i)"
  let ?sim = "calculateNgramSimilarity (normalizeForMatching t) (normalizeForMatching ?comb)"
  from "1.prems" have iw: "i \<le> we"
    by (subst (asm) growWindow.simps) (simp split: if_splits)
  show ?case
  proof (cases "?sim \<ge> minSim")
    case True
    with "1.prems" iw show ?thesis
      by (subst (asm) growWindow.simps) (auto simp: Let_def)
  next
    case False
    with "1.prems" iw
    have "growWindow tr t minSim ws we (i + 1) ?comb = Some (j, sim)"
      by (subst (asm) growWindow.simps) (simp add: Let_def)
    from "1.IH"[OF iw refl refl refl False this] show ?thesis by simp
  qed
qed

lemma calculateNgramSimilarity_Nil [simp]: "calculateNgramSimilarity a [] = 0"
  by (simp add: calculateNgramSimilarity_def)

lemma growWindow_first:
  assumes "growWindow tr t minSim ws we ws [] = Some (ws, sim)" "0 < minSim"
  shows "seg_text (tr ! nat ws) \<noteq> []"
proof
  assume e: "seg_text (tr ! nat ws) = []"
  from assms(1) have "ws \<le> we" by (subst (asm) growWindow.simps) (simp split: if_splits)
  with assms e have "growWindow tr t minSim ws we (ws + 1) [] = Some (ws, sim)"
    by (subst (asm) growWindow.simps) (simp add: Let_def)
  from growWindow_Some[OF this] show False by simp
qed

lemma tryCandidates_Some:
  "tryCandidates tr t opts n cands = Some m \<Longrightarrow>
   \<exists>c score. (c, score) \<in> set cands
     \<and> startSegmentIdx m = max 0 (c - 2)
     \<and> startSegmentIdx m \<le> endSegmentIdx m
     \<and> endSegmentIdx m \<le> min (int (length tr) - 1) (c + maxSegmentWindow opts)
     \<and> startCharOffset m = 0
     \<and> endCharOffset m = int (length (seg_text (tr ! nat (endSegmentIdx m))))
     \<and> matchStrategy m = FuzzyNgram
     \<and> minSimilarity opts \<le> similarity m
     \<and> (0 < minSimilarity opts \<and> startSegmentIdx m = endSegmentIdx m
          \<longrightarrow> seg_text (tr ! nat (endSegmentIdx m)) \<noteq> [])"
proof (induction cands)
  case Nil
  then show ?case by simp
next
  case (Cons cand cands)
  obtain c score where cand: "cand = (c, score)" by (cases cand) auto
  let ?ws = "max 0 (c - 2)"
  let ?we = "min (int (length tr) - 1) (c + maxSegmentWindow opts)"
  show ?case
  proof (cases "growWindow tr t (minSimilarity opts) ?ws ?we ?ws []")
    case None
    with Cons.prems cand have "tryCandidates tr t opts n cands = Some m"
      by (simp add: Let_def)
    from Cons.IH[OF this] show ?thesis by auto
  next
    case (Some r)
    obtain i sim where r: "r = (i, sim)" by (cases r) auto
    from Some r Cons.prems cand
    have m: "m = \<lparr>found = True, startSegmentIdx = ?ws, endSegmentIdx = i,
                   startCharOffset = 0,
                   endCharOffset = int (length (seg_text (tr ! nat i))),
                   matchStrategy = FuzzyNgram, similarity = sim,
                   confidence = min 1 (of_int score / of_nat n)\<rparr>"
      by (simp add: Let_def)
    from growWindow_Some[OF Some[unfolded r]] have b: "?ws \<le> i" "i \<le> ?we" "minSimilarity opts \<le> sim"
      by simp_all
    have ne: "0 < minSimilarity opts \<and> ?ws = i \<longrightarrow> seg_text (tr ! nat i) \<noteq> []"
      using growWindow_first[of tr t "minSimilarity opts" ?ws ?we sim] Some r by auto
    show ?thesis
      apply (rule exI[of _ c], rule exI[of _ score])
      using b ne by (simp add: m cand)
  qed
qed

lemma set_mapSet: "set (mapSet k v m) \<subseteq> insert (k, v) (set m)"
  by (induction m) (auto split: if_splits)

lemma voteSegment_keys:
  "set (voteSegment from scores seg) \<subseteq> set scores \<union> {(c, n). from \<le> c}"
  using set_mapSet[of seg _ scores] by (auto simp: voteSegment_def)

lemma tallyVotes_keys: "(c, n) \<in> set (tallyVotes ix from ws) \<Longrightarrow> from \<le> c"
proof -
  have seg: "set (foldl (voteSegment from) scores segs) \<subseteq> set scores \<union> {(c, n). from \<le> c}"
    for scores segs
  proof (induction segs arbitrary: scores)
    case Nil
    then show ?case by simp
  next
    case (Cons a segs)
    from Cons[of "voteSegment from scores a"] voteSegment_keys[of "from" scores a]
    show ?case by auto
  qed
  have word: "set (foldl (voteWord ix from) scores ws) \<subseteq> set scores \<union> {(c, n). from \<le> c}"
    for scores
  proof (induction ws arbitrary: scores)
    case Nil
    then show ?case by simp
  next
    case (Cons w ws)
    from Cons[of "voteWord ix from scores w"] seg[of scores]
    show ?case unfolding voteWord_def by auto
  qed
  assume "(c, n) \<in> set (tallyVotes ix from ws)"
  with word[of "[]"] show ?thesis unfolding tallyVotes_def by auto
qed

lemma scoredSegments_subset: "set (scoredSegments scores) \<subseteq> set scores"
  using set_take_subset[of 15 "sort_key (\<lambda>entry. - snd entry) scores"]
  by (simp add: scoredSegments_def)

lemma fuzzyMatch_Some:
  assumes "fuzzyMatch tr t ix opts = Some m"
  shows "\<exists>c score.
       (c, score) \<in> set (scoredSegments (tallyVotes ix (startIdx opts) (targetWordsOf t)))
     \<and> startIdx opts \<le> c
     \<and> startSegmentIdx m = max 0 (c - 2)
     \<and> startSegmentIdx m \<le> endSegmentIdx m
     \<and> endSegmentIdx m \<le> min (int (length tr) - 1) (c + maxSegmentWindow opts)
     \<and> startCharOffset m = 0
     \<and> endCharOffset m = int (length (seg_text (tr ! nat (endSegmentIdx m))))
     \<and> matchStrategy m = FuzzyNgram
     \<and> minSimilarity opts \<le> similarity m
     \<and> (0 < minSimilarity opts \<and> startSegmentIdx m = endSegmentIdx m
          \<longrightarrow> seg_text (tr ! nat (endSegmentIdx m)) \<noteq> [])"
proof -
  let ?cands = "scoredSegments (tallyVotes ix (startIdx opts) (targetWordsOf t))"
  from assms have "tryCandidates tr t opts (length (targetWordsOf t)) ?cands = Some m"
    by (simp add: fuzzyMatch_def Let_def split: if_splits)
  from tryCandidates_Some[OF this] obtain c score where
    c: "(c, score) \<in> set ?cands" and rest: "startSegmentIdx m = max 0 (c - 2)
     \<and> startSegmentIdx m \<le> endSegmentIdx m
     \<and> endSegmentIdx m \<le> min (int (length tr) - 1) (c + maxSegmentWindow opts)
     \<and> startCharOffset m = 0
     \<and> endCharOffset m = int (length (seg_text (tr ! nat (endSegmentIdx m))))
     \<and> matchStrategy m = FuzzyNgram
     \<and> minSimilarity opts \<le> similarity m
     \<and> (0 < minSimilarity opts \<and> startSegmentIdx m = endSegmentIdx m
          \<longrightarrow> seg_text (tr ! nat (endSegmentIdx m)) \<noteq> [])"
    by blast
  from c scoredSegments_subset have "(c, score) \<in> set (tallyVotes ix (startIdx opts) (targetWordsOf t))"
    by blast
  from tallyVotes_keys[OF this] have "startIdx opts \<le> c" .
  with c rest show ?thesis by blast
qed

lemma findTextInTranscript_cases:
  assumes "findTextInTranscript tr q ix opts = Some m"
  shows "(\<exists>r. exactMatch q ix = Some r \<and> m = withStrategy r Exact 1 1)
       \<or> (exactMatch q ix = None \<and> (\<exists>r. normalizedMatch q ix = Some r
              \<and> m = withStrategy r Normalized (19 / 20) (19 / 20)))
       \<or> (exactMatch q ix = None \<and> normalizedMatch q ix = None \<and> fuzzyMatch tr q ix opts = Some m)"
  using assms by (auto simp: findTextInTranscript_def split: option.splits)

lemma withStrategy_fields [simp]:
  "startSegmentIdx (withStrategy r s a b) = startSegmentIdx r"
  "endSegmentIdx (withStrategy r s a b) = endSegmentIdx r"
  "startCharOffset (withStrategy r s a b) = startCharOffset r"
  "endCharOffset (withStrategy r s a b) = endCharOffset r"
  "matchStrategy (withStrategy r s a b) = s"
  "similarity (withStrategy r s a b) = a"
  "confidence (withStrategy r s a b) = b"
  "found (withStrategy r s a b) = found r"
  by (simp_all add: withStrategy_def)

lemma findTextInTranscript_good:
  assumes "findTextInTranscript tr q (buildTranscriptIndex tr) opts = Some m"
    "q \<noteq> []" "0 < minSimilarity opts"
  shows "resultGood tr (startSegmentIdx m) (endSegmentIdx m) (startCharOffset m) (endCharOffset m)"
  using findTextInTranscript_cases[OF assms(1)]
proof (elim disjE exE conjE)
  fix r assume "exactMatch q (buildTranscriptIndex tr) = Some r" "m = withStrategy r Exact 1 1"
  with exactMatch_good[OF _ assms(2)] show ?thesis by simp
next
  fix r assume "normalizedMatch q (buildTranscriptIndex tr) = Some r"
    "m = withStrategy r Normalized (19 / 20) (19 / 20)"
  with normalizedMatch_good show ?thesis by simp
next
  assume "fuzzyMatch tr q (buildTranscriptIndex tr) opts = Some m"
  from fuzzyMatch_Some[OF this] assms(3) show ?thesis
    by (auto simp: resultGood_def textLen_def)
qed

section \<open>Per-quote resolution: helper lemmas\<close>

text \<open>The overlap test of a segment with the timestamp range.\<close>

definition overlaps :: "rat \<Rightarrow> rat \<Rightarrow> TranscriptSegment \<Rightarrow> bool" where
  "overlaps timestampStart timestampEnd segment \<longleftrightarrow>
     seg_start segment \<le> timestampEnd
     \<and> seg_start segment + seg_duration segment \<ge> timestampStart"

definition overlapIndices :: "TranscriptSegment list \<Rightarrow> rat \<Rightarrow> rat \<Rightarrow> nat list" where
  "overlapIndices tr timestampStart timestampEnd =
     filter (\<lambda>i. overlaps timestampStart timestampEnd (tr ! i)) [0..<length tr]"

lemma zip_indices: "zip (map int [0..<length tr]) tr = map (\<lambda>i. (int i, tr ! i)) [0..<length tr]"
  by (rule nth_equalityI) (simp_all del: upt_Suc)

lemma segmentsInRange_eq:
  "segmentsInRange tr s e = map (\<lambda>i. (int i, tr ! i)) (overlapIndices tr s e)"
  unfolding segmentsInRange_def overlapIndices_def zip_indices filter_map
  by (simp add: comp_def overlaps_def)

lemma overlapIndices_nonempty:
  "i < length tr \<Longrightarrow> overlaps s e (tr ! i) \<Longrightarrow> overlapIndices tr s e \<noteq> []"
  by (auto simp: overlapIndices_def filter_empty_conv)

lemma fallbackHighlight_eq:
  assumes "overlapIndices tr s e \<noteq> []"
  shows "fallbackHighlight (segmentsInRange tr s e) =
     \<lparr>hl_start = seg_start (tr ! hd (overlapIndices tr s e)),
      hl_end = seg_start (tr ! last (overlapIndices tr s e))
               + seg_duration (tr ! last (overlapIndices tr s e)),
      hl_text = joinSpace (map (\<lambda>i. seg_text (tr ! i)) (overlapIndices tr s e)),
      hl_startSegmentIdx = int (hd (overlapIndices tr s e)),
      hl_endSegmentIdx = int (last (overlapIndices tr s e)),
      hl_startCharOffset = 0,
      hl_endCharOffset = int (length (seg_text (tr ! last (overlapIndices tr s e)))),
      hasCompleteSentences = False,
      hl_confidence = 1 / 2\<rparr>"
  using assms
  by (simp add: fallbackHighlight_def segmentsInRange_eq Let_def hd_map last_map comp_def)

lemma highlightOfMatch_Inr:
  assumes "0 \<le> startSegmentIdx m" "startSegmentIdx m \<le> endSegmentIdx m"
    "endSegmentIdx m < int (length tr)"
  shows "\<exists>h. highlightOfMatch tr q m = Inr h"
  using assms by (simp add: highlightOfMatch_def segmentAt_def)

lemma findTextInTranscript_highlight:
  assumes "findTextInTranscript tr q (buildTranscriptIndex tr) opts = Some m"
    "q \<noteq> []" "0 < minSimilarity opts"
  shows "\<exists>h. highlightOfMatch tr q m = Inr h"
  using findTextInTranscript_good[OF assms]
  by (intro highlightOfMatch_Inr) (simp_all add: resultGood_def)

lemma constrainedMatch_Some:
  "constrainedMatch tr q ix a b = Some m \<longleftrightarrow>
     findTextInTranscript tr q ix (rangeOptions a b) = Some m \<and> startSegmentIdx m \<le> b + 2"
  by (auto simp: constrainedMatch_def split: option.splits)

lemma resolveQuote_global:
  assumes "q_timestamp quote \<noteq> []" "parse (q_timestamp quote) = Some (s, e)"
    "trim (q_text quote) \<noteq> []"
    "findTextInTranscript tr (trim (q_text quote)) ix globalOptions = Some m"
  shows "resolveQuote parse tr ix quote
           = map_sum id Some (highlightOfMatch tr (trim (q_text quote)) m)"
  using assms by (simp add: resolveQuote_def Let_def)

lemma resolveQuote_range:
  assumes "q_timestamp quote \<noteq> []" "parse (q_timestamp quote) = Some (s, e)"
    "trim (q_text quote) \<noteq> []"
    "findTextInTranscript tr (trim (q_text quote)) ix globalOptions = None"
    "segmentsInRange tr s e \<noteq> []"
  shows "resolveQuote parse tr ix quote =
     (case constrainedMatch tr (trim (q_text quote)) ix
             (fst (hd (segmentsInRange tr s e))) (fst (last (segmentsInRange tr s e))) of
        Some rangeMatch \<Rightarrow> map_sum id Some (highlightOfMatch tr (trim (q_text quote)) rangeMatch)
      | None \<Rightarrow> Inr (Some (fallbackHighlight (segmentsInRange tr s e))))"
  using assms by (simp add: resolveQuote_def Let_def)

lemma resolveQuote_total:
  assumes "q_timestamp quote \<noteq> []" "parse (q_timestamp quote) = Some (s, e)"
    "trim (q_text quote) \<noteq> []" "overlapIndices tr s e \<noteq> []"
  shows "\<exists>h. resolveQuote parse tr (buildTranscriptIndex tr) quote = Inr (Some h)"
proof -
  let ?ix = "buildTranscriptIndex tr"
  let ?q = "trim (q_text quote)"
  have ne: "segmentsInRange tr s e \<noteq> []" using assms(4) by (simp add: segmentsInRange_eq)
  show ?thesis
  proof (cases "findTextInTranscript tr ?q ?ix globalOptions")
    case (Some m)
    from findTextInTranscript_highlight[OF Some assms(3)]
    obtain h where "highlightOfMatch tr ?q m = Inr h" by (auto simp: globalOptions_def)
    with resolveQuote_global[of quote parse s e tr ?ix m] assms(1-3) Some show ?thesis by simp
  next
    case None
    have rq: "resolveQuote parse tr ?ix quote =
     (case constrainedMatch tr ?q ?ix
             (fst (hd (segmentsInRange tr s e))) (fst (last (segmentsInRange tr s e))) of
        Some rangeMatch \<Rightarrow> map_sum id Some (highlightOfMatch tr ?q rangeMatch)
      | None \<Rightarrow> Inr (Some (fallbackHighlight (segmentsInRange tr s e))))"
      using resolveQuote_range[of quote parse s e tr ?ix] assms(1-3) None ne by simp
    show ?thesis
    proof (cases "constrainedMatch tr ?q ?ix (fst (hd (segmentsInRange tr s e)))
                    (fst (last (segmentsInRange tr s e)))")
      case None
      with rq show ?thesis by simp
    next
      case (Some m)
      then have "findTextInTranscript tr ?q ?ix
                   (rangeOptions (fst (hd (segmentsInRange tr s e)))
                      (fst (last (segmentsInRange tr s e)))) = Some m"
        by (simp add: constrainedMatch_Some)
      from findTextInTranscript_highlight[OF this assms(3)]
      obtain h where "highlightOfMatch tr ?q m = Inr h" by (auto simp: rangeOptions_def)
      with rq Some show ?thesis by simp
    qed
  qed
qed

section \<open>A quote made of two adjacent segments\<close>

text \<open>The length of the joined text up to, and with, the space after the last of \<open>ts\<close>.\<close>

definition offsetOf :: "jsstring list \<Rightarrow> int" where
  "offsetOf ts = sum_list (map (\<lambda>t. int (length t) + 1) ts)"

lemma joinFrom_split:
  "0 \<le> idx \<Longrightarrow>
   \<exists>X Y. joinFrom idx (pre @ a # b # rest) = X @ (a @ [32] @ b) @ Y
        \<and> int (length X) = offsetOf pre + (if idx > 0 then 1 else 0)"
proof (induction pre arbitrary: idx)
  case Nil
  have "joinFrom idx ([] @ a # b # rest)
          = (if idx > 0 then [32] else []) @ (a @ [32] @ b) @ joinFrom (idx + 1 + 1) rest"
    using Nil by simp
  then show ?case
    by (intro exI[of _ "if idx > 0 then [32] else []"] exI[of _ "joinFrom (idx + 1 + 1) rest"])
       (simp add: offsetOf_def)
next
  case (Cons p pre)
  have "0 \<le> idx + 1" using Cons.prems by simp
  from Cons.IH[OF this] obtain X Y where
    xy: "joinFrom (idx + 1) (pre @ a # b # rest) = X @ (a @ [32] @ b) @ Y"
      "int (length X) = offsetOf pre + 1"
    using Cons.prems by auto
  let ?X = "(if idx > 0 then [32] else []) @ p @ X"
  have "joinFrom idx ((p # pre) @ a # b # rest) = ?X @ (a @ [32] @ b) @ Y"
    using xy(1) by simp
  moreover have "int (length ?X) = offsetOf (p # pre) + (if idx > 0 then 1 else 0)"
    using xy(2) by (simp add: offsetOf_def)
  ultimately show ?case by blast
qed

lemma occursAt_middle: "occursAt (X @ q @ Y) q (length X)"
  by (simp add: occursAt_def)

lemma boundariesFrom_nth_startPos:
  "startPos (boundariesFrom idx pos (pre @ a # rest) ! length pre)
     = pos + offsetOf (map seg_text pre)"
  by (induction pre arbitrary: idx pos) (simp_all add: offsetOf_def)

lemma mapMatchLoop_adjacent:
  assumes "seg_text a \<noteq> []" "seg_text b \<noteq> []"
  shows "mapMatchLoop (pos + offsetOf (map seg_text pre))
           (pos + offsetOf (map seg_text pre)
              + int (length (seg_text a @ [32] @ seg_text b)))
           (boundariesFrom idx pos (pre @ a # b # rest)) (- 1, endSeg, 0, endOff)
         = (idx + int (length pre), idx + int (length pre) + 1, 0, int (length (seg_text b)))"
proof (induction pre arbitrary: idx pos endSeg endOff)
  case Nil
  from assms have "0 < length (seg_text a)" "0 < length (seg_text b)" by simp_all
  then show ?case by (simp add: offsetOf_def)
next
  case (Cons p pre)
  let ?pos' = "pos + int (length (seg_text p)) + 1"
  have o: "pos + offsetOf (map seg_text (p # pre)) = ?pos' + offsetOf (map seg_text pre)"
    by (simp add: offsetOf_def)
  have nn: "0 \<le> offsetOf (map seg_text pre)"
    unfolding offsetOf_def by (rule sum_list_nonneg) auto
  have "mapMatchLoop (pos + offsetOf (map seg_text (p # pre)))
           (pos + offsetOf (map seg_text (p # pre))
              + int (length (seg_text a @ [32] @ seg_text b)))
           (boundariesFrom idx pos ((p # pre) @ a # b # rest)) (- 1, endSeg, 0, endOff)
        = mapMatchLoop (?pos' + offsetOf (map seg_text pre))
           (?pos' + offsetOf (map seg_text pre)
              + int (length (seg_text a @ [32] @ seg_text b)))
           (boundariesFrom (idx + 1) ?pos' (pre @ a # b # rest))
           (- 1, idx, 0, int (length (seg_text p)))"
    unfolding o using nn by simp
  also have "\<dots> = (idx + 1 + int (length pre), idx + 1 + int (length pre) + 1, 0,
                      int (length (seg_text b)))"
    by (rule Cons.IH)
  finally show ?case by simp
qed

lemma split_adjacent:
  assumes "i + 1 < length tr"
  shows "tr = take i tr @ tr ! i # tr ! (i + 1) # drop (i + 2) tr"
proof -
  have "tr = take i tr @ tr ! i # drop (Suc i) tr"
    using assms by (simp add: id_take_nth_drop)
  moreover have "drop (Suc i) tr = tr ! (i + 1) # drop (i + 2) tr"
    using assms by (simp add: Cons_nth_drop_Suc)
  ultimately show ?thesis by simp
qed

lemma exactMatch_adjacent:
  fixes tr :: "TranscriptSegment list"
  defines "ix \<equiv> buildTranscriptIndex tr"
  assumes "i + 1 < length tr"
    and "seg_text (tr ! i) \<noteq> []" and "seg_text (tr ! (i + 1)) \<noteq> []"
    and "q = seg_text (tr ! i) @ [32] @ seg_text (tr ! (i + 1))"
    and "\<forall>s. occursAt (fullTextSpace ix) q s \<longrightarrow> startPos (segmentBoundaries ix ! i) \<le> int s"
  shows "exactMatch q ix =
     Some \<lparr>found = True, startSegmentIdx = int i, endSegmentIdx = int i + 1,
            startCharOffset = 0, endCharOffset = int (length (seg_text (tr ! (i + 1))))\<rparr>"
proof -
  let ?pre = "take i tr" and ?a = "tr ! i" and ?b = "tr ! (i + 1)" and ?rest = "drop (i + 2) tr"
  let ?off = "offsetOf (map seg_text ?pre)"
  have tr: "tr = ?pre @ ?a # ?b # ?rest" using assms(2) by (rule split_adjacent)
  have lp: "length ?pre = i" using assms(2) by simp
  have ft: "fullTextSpace ix = joinFrom 0 (map seg_text tr)"
    by (simp add: ix_def fullTextSpace_build joinFrom_0)
  have "map seg_text tr = map seg_text ?pre @ seg_text ?a # seg_text ?b # map seg_text ?rest"
    by (subst tr) simp
  with joinFrom_split[of 0 "map seg_text ?pre" "seg_text ?a" "seg_text ?b" "map seg_text ?rest"]
  obtain X Y where xy: "fullTextSpace ix = X @ q @ Y" "int (length X) = ?off"
    unfolding ft assms(5) by auto
  have occ: "occursAt (fullTextSpace ix) q (length X)"
    unfolding xy(1) by (rule occursAt_middle)
  have sb: "segmentBoundaries ix = boundariesFrom 0 0 (?pre @ ?a # ?b # ?rest)"
    unfolding ix_def segmentBoundaries_build using tr by simp
  have sp: "startPos (segmentBoundaries ix ! i) = ?off"
    unfolding sb using boundariesFrom_nth_startPos[of 0 0 ?pre ?a "?b # ?rest"] lp by simp
  from boyerMooreSearch_cases[of "fullTextSpace ix" q] occ obtain r where
    r: "boyerMooreSearch (fullTextSpace ix) q = int r" "occursAt (fullTextSpace ix) q r"
      "\<forall>s<r. \<not> occursAt (fullTextSpace ix) q s"
    by blast
  from assms(6) r(2) sp have "?off \<le> int r" by auto
  moreover from r(3) occ have "\<not> length X < r" by blast
  ultimately have "int r = ?off" using xy(2) by linarith
  with r(1) have bm: "boyerMooreSearch (fullTextSpace ix) q = ?off" by simp
  have nn: "0 \<le> ?off" unfolding offsetOf_def by (rule sum_list_nonneg) auto
  have loop: "mapMatchLoop ?off (?off + int (length q)) (segmentBoundaries ix) (- 1, - 1, 0, 0)
                = (int i, int i + 1, 0, int (length (seg_text ?b)))"
    unfolding sb assms(5)
    using mapMatchLoop_adjacent[OF assms(3,4), of 0 ?pre 0 ?rest "- 1" 0] lp by simp
  show ?thesis
    using nn by (simp add: exactMatch_def Let_def bm mapMatchToSegments_def loop spanOfVars_def)
qed

section \<open>The word index and the vote\<close>

text \<open>The words of a segment that the word index holds, in order and with repeats.\<close>

definition segmentWords :: "TranscriptSegment \<Rightarrow> jsstring list" where
  "segmentWords s =
     filter (\<lambda>w. length w > 2) (splitWhitespace (normalizeForMatching (seg_text s)))"

text \<open>\<open>map.get(k) || []\<close> and \<open>map.get(k) || 0\<close>.\<close>

definition getList :: "('k \<times> 'v list) list \<Rightarrow> 'k \<Rightarrow> 'v list" where
  "getList m k = (case map_of m k of Some l \<Rightarrow> l | None \<Rightarrow> [])"

definition getScore :: "(int \<times> int) list \<Rightarrow> int \<Rightarrow> int" where
  "getScore m k = (case map_of m k of Some n \<Rightarrow> n | None \<Rightarrow> 0)"

fun postings :: "int \<Rightarrow> TranscriptSegment list \<Rightarrow> jsstring \<Rightarrow> int list" where
  "postings idx [] w = []"
| "postings idx (s # ss) w = replicate (count_list (segmentWords s) w) idx @ postings (idx + 1) ss w"

lemma map_of_mapSet: "map_of (mapSet k v m) = (map_of m)(k \<mapsto> v)"
  by (induction m) (auto simp: fun_eq_iff)

lemma getList_addWords:
  "getList (foldl (addWord idx) wi words) w
     = getList wi w @ replicate (count_list (filter (\<lambda>w. length w > 2) words) w) idx"
proof (induction words arbitrary: wi)
  case Nil
  then show ?case by simp
next
  case (Cons x words)
  have step: "getList (addWord idx wi x) w
     = getList wi w @ (if length x > 2 \<and> x = w then [idx] else [])"
    by (auto simp: addWord_def getList_def map_of_mapSet)
  show ?case
    by (auto simp: Cons.IH step replicate_app_Cons_same)
qed

lemma getList_indexFrom:
  "getList (wordIndex (indexFrom idx ss ix)) w = getList (wordIndex ix) w @ postings idx ss w"
  by (induction ss arbitrary: idx ix)
     (simp_all add: indexSegment_fields getList_addWords segmentWords_def)

lemma getList_build: "getList (wordIndex (buildTranscriptIndex tr)) w = postings 0 tr w"
  unfolding buildTranscriptIndex_def getList_indexFrom
  by (simp add: emptyIndex_def getList_def)

lemma count_postings:
  "count_list (postings idx ss w) c =
     (if idx \<le> c \<and> c < idx + int (length ss)
      then count_list (segmentWords (ss ! nat (c - idx))) w else 0)"
proof (induction ss arbitrary: idx)
  case Nil
  then show ?case by simp
next
  case (Cons s ss)
  have rep: "count_list (replicate n j) k = (if k = j then n else 0)" for n and j k :: int
    by (induction n) auto
  show ?case
  proof (cases "c = idx")
    case True
    have "count_list (postings (idx + 1) ss w) c = 0"
      unfolding Cons.IH using True by simp
    with True show ?thesis by (simp add: rep)
  next
    case False
    have "idx + 1 \<le> c \<Longrightarrow> nat (c - idx) = Suc (nat (c - (idx + 1)))" by linarith
    with False show ?thesis by (auto simp: Cons.IH rep)
  qed
qed

lemma getScore_voteSegment:
  "getScore (voteSegment from scores seg) c
     = getScore scores c + (if seg = c \<and> from \<le> c then 1 else 0)"
  by (auto simp: voteSegment_def getScore_def map_of_mapSet)

lemma getScore_voteSegments:
  "getScore (foldl (voteSegment from) scores segs) c
     = getScore scores c + (if from \<le> c then int (count_list segs c) else 0)"
  by (induction segs arbitrary: scores) (auto simp: getScore_voteSegment)

lemma getScore_voteWords:
  "getScore (foldl (voteWord ix from) scores ws) c
     = getScore scores c
       + (if from \<le> c then (\<Sum>w\<leftarrow>ws. int (count_list (getList (wordIndex ix) w) c)) else 0)"
proof (induction ws arbitrary: scores)
  case Nil
  then show ?case by simp
next
  case (Cons w ws)
  have vw: "voteWord ix from scores w = foldl (voteSegment from) scores (getList (wordIndex ix) w)"
    by (simp add: voteWord_def getList_def)
  show ?case by (simp add: Cons.IH vw getScore_voteSegments)
qed

lemma getScore_tallyVotes:
  "getScore (tallyVotes ix from ws) c
     = (if from \<le> c then (\<Sum>w\<leftarrow>ws. int (count_list (getList (wordIndex ix) w) c)) else 0)"
  unfolding tallyVotes_def getScore_voteWords by (simp add: getScore_def)

lemma keys_mapSet:
  "map fst (mapSet k v m) = (if k \<in> fst ` set m then map fst m else map fst m @ [k])"
  by (induction m) (auto split: if_splits)

lemma distinct_mapSet: "distinct (map fst m) \<Longrightarrow> distinct (map fst (mapSet k v m))"
  by (simp add: keys_mapSet)

lemma distinct_tallyVotes: "distinct (map fst (tallyVotes ix from ws))"
proof -
  have seg: "distinct (map fst scores) \<Longrightarrow> distinct (map fst (foldl (voteSegment from) scores segs))"
    for scores segs
    by (induction segs arbitrary: scores) (simp_all add: voteSegment_def distinct_mapSet)
  have word: "distinct (map fst scores) \<Longrightarrow> distinct (map fst (foldl (voteWord ix from) scores ws))"
    for scores
    by (induction ws arbitrary: scores) (simp_all add: voteWord_def seg)
  show ?thesis unfolding tallyVotes_def by (rule word) simp
qed

lemma positive_voteSegment:
  assumes "\<forall>p \<in> set scores. 1 \<le> snd p"
  shows "\<forall>p \<in> set (voteSegment from scores seg). 1 \<le> snd p"
proof -
  have nn: "0 \<le> getScore scores seg"
  proof (cases "map_of scores seg")
    case None
    then show ?thesis by (simp add: getScore_def)
  next
    case (Some n)
    then have "(seg, n) \<in> set scores" by (rule map_of_SomeD)
    with assms have "1 \<le> n" by auto
    with Some show ?thesis by (simp add: getScore_def)
  qed
  have "set (mapSet seg (getScore scores seg + 1) scores)
          \<subseteq> insert (seg, getScore scores seg + 1) (set scores)"
    by (rule set_mapSet)
  with assms nn have "\<forall>p \<in> set (mapSet seg (getScore scores seg + 1) scores). 1 \<le> snd p"
    by auto
  with assms show ?thesis by (simp add: voteSegment_def getScore_def)
qed

lemma positive_tallyVotes: "(c, n) \<in> set (tallyVotes ix from ws) \<Longrightarrow> 1 \<le> n"
proof -
  have seg: "\<forall>p \<in> set scores. 1 \<le> snd p \<Longrightarrow>
      \<forall>p \<in> set (foldl (voteSegment from) scores segs). 1 \<le> snd p" for scores segs
  proof (induction segs arbitrary: scores)
    case Nil
    then show ?case by simp
  next
    case (Cons a segs)
    from Cons.IH[OF positive_voteSegment[OF Cons.prems]] show ?case by simp
  qed
  have word: "\<forall>p \<in> set scores. 1 \<le> snd p \<Longrightarrow>
      \<forall>p \<in> set (foldl (voteWord ix from) scores ws). 1 \<le> snd p" for scores
  proof (induction ws arbitrary: scores)
    case Nil
    then show ?case by simp
  next
    case (Cons w ws)
    have "\<forall>p \<in> set (voteWord ix from scores w). 1 \<le> snd p"
      unfolding voteWord_def using Cons.prems by (rule seg)
    from Cons.IH[OF this] show ?case by simp
  qed
  assume "(c, n) \<in> set (tallyVotes ix from ws)"
  with word[of "[]"] show ?thesis unfolding tallyVotes_def by auto
qed

lemma tallyVotes_entry:
  assumes "(c, n) \<in> set (tallyVotes (buildTranscriptIndex tr) from ws)"
  shows "from \<le> c \<and> 0 \<le> c \<and> c < int (length tr) \<and> 1 \<le> n
     \<and> n = (\<Sum>w\<leftarrow>ws. int (count_list (segmentWords (tr ! nat c)) w))"
proof -
  let ?ix = "buildTranscriptIndex tr"
  have fr: "from \<le> c" using assms by (rule tallyVotes_keys)
  have pos: "1 \<le> n" using assms by (rule positive_tallyVotes)
  have "map_of (tallyVotes ?ix from ws) c = Some n"
    using distinct_tallyVotes assms by (rule map_of_is_SomeI)
  then have "getScore (tallyVotes ?ix from ws) c = n" by (simp add: getScore_def)
  with fr have n: "n = (\<Sum>w\<leftarrow>ws. int (count_list (postings 0 tr w) c))"
    by (simp add: getScore_tallyVotes getList_build)
  have range: "0 \<le> c \<and> c < int (length tr)"
  proof (rule ccontr)
    assume "\<not> (0 \<le> c \<and> c < int (length tr))"
    then have "count_list (postings 0 tr w) c = 0" for w by (auto simp: count_postings)
    with n pos show False by simp
  qed
  with n have "n = (\<Sum>w\<leftarrow>ws. int (count_list (segmentWords (tr ! nat c)) w))"
    by (simp add: count_postings)
  with fr pos range show ?thesis by blast
qed

section \<open>Concrete inputs\<close>

text \<open>The inputs at which the witnesses and the counterexamples are evaluated.\<close>

text \<open>The transcript of the scenarios A and B of the specification.\<close>

definition showTranscript :: "TranscriptSegment list" where
  "showTranscript =
     [\<lparr>seg_start = 0, seg_duration = 5, seg_text = utf16 ''Welcome to the show.''\<rparr>,
      \<lparr>seg_start = 5, seg_duration = 4, seg_text = utf16 ''Today we discuss AI.''\<rparr>]"

text \<open>Segments of ten seconds each, one after the other, with the given texts.\<close>

definition tenSecondSegments :: "string list \<Rightarrow> TranscriptSegment list" where
  "tenSecondSegments texts =
     map (\<lambda>(i, s). \<lparr>seg_start = of_nat (10 * i), seg_duration = 10, seg_text = utf16 s\<rparr>)
       (zip [0..<length texts] texts)"

definition driftTranscript :: "TranscriptSegment list" where
  "driftTranscript = tenSecondSegments [''qq'', ''abcde'', ''zz'', ''def'', ''rr'', ''ss'']"

definition alphabetTranscript :: "TranscriptSegment list" where
  "alphabetTranscript = tenSecondSegments [''abc'', ''def'', ''ghi'', ''jkl'', ''mno'', ''pqrstu'']"

definition windowFive :: Options where
  "windowFive = \<lparr>startIdx = 0, minSimilarity = 17 / 20, maxSegmentWindow = 5\<rparr>"

definition repeatTranscript :: "TranscriptSegment list" where
  "repeatTranscript = tenSecondSegments [''a'', ''b'', ''a'', ''b'']"

definition emptyFirstTranscript :: "TranscriptSegment list" where
  "emptyFirstTranscript = tenSecondSegments [[], ''b'']"

definition theTranscript :: "TranscriptSegment list" where
  "theTranscript = tenSecondSegments [''the the the'']"

definition catTranscript :: "TranscriptSegment list" where
  "catTranscript = tenSecondSegments [''the cat'']"

definition helloTranscript :: "TranscriptSegment list" where
  "helloTranscript = tenSecondSegments [''Hello, world!'']"

text \<open>A timestamp parser for the one range used below, \<open>[00:55-00:58]\<close>.\<close>

definition parseFiftyFive :: "jsstring \<Rightarrow> (rat \<times> rat) option" where
  "parseFiftyFive timestamp =
     (if timestamp = utf16 ''[00:55-00:58]'' then Some (55, 58) else None)"

definition quoteAt55 :: "string \<Rightarrow> Quote" where
  "quoteAt55 s = \<lparr>q_timestamp = utf16 ''[00:55-00:58]'', q_text = utf16 s\<rparr>"

section \<open>The claims\<close>

subsection \<open>Substring search\<close>

text \<open>
  C6. For every text \<open>t\<close> and pattern \<open>p\<close>, \<open>boyerMooreSearch t p\<close> is the smallest index at
  which \<open>p\<close> occurs in \<open>t\<close> (the empty pattern occurs at index 0), and it is \<open>-1\<close> exactly
  when \<open>p\<close> does not occur in \<open>t\<close>.
\<close>

theorem boyerMooreSearch_leftmost:
  "boyerMooreSearch t p = (if (\<exists>i. occursAt t p i) then int (LEAST i. occursAt t p i) else - 1)
   \<and> (boyerMooreSearch t p = - 1) = (\<nexists>i. occursAt t p i)
   \<and> occursAt t [] 0"
proof -
  have empty: "occursAt t [] 0" by (simp add: occursAt_def)
  show ?thesis
  proof (cases "\<exists>i. occursAt t p i")
    case True
    then obtain i where "occursAt t p i" ..
    from boyerMooreSearch_found[OF this] True empty show ?thesis by simp
  next
    case False
    with empty show ?thesis by (simp add: boyerMooreSearch_not_found)
  qed
qed

theorem boyerMooreSearch_leftmost_witness:
  "boyerMooreSearch (utf16 ''a b a b'') (utf16 ''b a'') = 2
   \<and> occursAt (utf16 ''a b a b'') (utf16 ''b a'') 2
   \<and> (LEAST i. occursAt (utf16 ''a b a b'') (utf16 ''b a'') i) = 2"
proof -
  have e: "boyerMooreSearch (utf16 ''a b a b'') (utf16 ''b a'') = 2"
    "occursAt (utf16 ''a b a b'') (utf16 ''b a'') 2"
    by code_simp+
  from e(2) have "\<exists>i. occursAt (utf16 ''a b a b'') (utf16 ''b a'') i" ..
  with boyerMooreSearch_leftmost[of "utf16 ''a b a b''" "utf16 ''b a''"]
  have "boyerMooreSearch (utf16 ''a b a b'') (utf16 ''b a'')
          = int (LEAST i. occursAt (utf16 ''a b a b'') (utf16 ''b a'') i)"
    by presburger
  with e(1) have "(LEAST i. occursAt (utf16 ''a b a b'') (utf16 ''b a'') i) = 2"
    by linarith
  with e show ?thesis by blast
qed

subsection \<open>N-gram similarity\<close>

text \<open>
  C9, as amended. If one of the two input strings is empty, \<open>calculateNgramSimilarity\<close>
  returns 0. For two non-empty input strings of which one has fewer than 3 characters
  after its white space is stripped, it returns 0.8 when one stripped string contains the
  other, and 0 otherwise.
\<close>

theorem calculateNgramSimilarity_short:
  "(str1 = [] \<or> str2 = [] \<longrightarrow> calculateNgramSimilarity str1 str2 = 0)
   \<and> (str1 \<noteq> [] \<and> str2 \<noteq> []
        \<and> (length (stripWhitespace str1) < 3 \<or> length (stripWhitespace str2) < 3)
      \<longrightarrow> calculateNgramSimilarity str1 str2 =
            (if jsIncludes (stripWhitespace str1) (stripWhitespace str2)
                \<or> jsIncludes (stripWhitespace str2) (stripWhitespace str1)
             then 4 / 5 else 0))"
  by (auto simp: calculateNgramSimilarity_def Let_def card_ngrams_0)

theorem calculateNgramSimilarity_short_witness:
  "utf16 ''a b'' \<noteq> [] \<and> utf16 ''x ab y'' \<noteq> []
   \<and> length (stripWhitespace (utf16 ''a b'')) < 3
   \<and> jsIncludes (stripWhitespace (utf16 ''x ab y'')) (stripWhitespace (utf16 ''a b''))
   \<and> calculateNgramSimilarity (utf16 ''a b'') (utf16 ''x ab y'') = 4 / 5
   \<and> calculateNgramSimilarity [] (utf16 ''x ab y'') = 0"
proof -
  have e: "utf16 ''a b'' \<noteq> []" "utf16 ''x ab y'' \<noteq> []"
    "length (stripWhitespace (utf16 ''a b'')) < 3"
    "jsIncludes (stripWhitespace (utf16 ''x ab y'')) (stripWhitespace (utf16 ''a b''))"
    by code_simp+
  from calculateNgramSimilarity_short[of "utf16 ''a b''" "utf16 ''x ab y''"] e
  have "calculateNgramSimilarity (utf16 ''a b'') (utf16 ''x ab y'') = 4 / 5"
    by presburger
  moreover from calculateNgramSimilarity_short[of "[]" "utf16 ''x ab y''"]
  have "calculateNgramSimilarity [] (utf16 ''x ab y'') = 0"
    by blast
  ultimately show ?thesis using e by blast
qed

text \<open>
  The claim as first stated fails at an empty input string: the stripped empty string has
  fewer than 3 characters and is contained in every string, and the result is 0, not 0.8.
\<close>

theorem calculateNgramSimilarity_short_counterexample:
  "length (stripWhitespace []) < 3
   \<and> jsIncludes (stripWhitespace (utf16 ''ab'')) (stripWhitespace [])
   \<and> calculateNgramSimilarity [] (utf16 ''ab'') = 0"
  by code_simp

text \<open>
  C10. The similarity is symmetric:
  \<open>calculateNgramSimilarity a b = calculateNgramSimilarity b a\<close> for all strings.
\<close>

theorem calculateNgramSimilarity_symmetric:
  "calculateNgramSimilarity a b = calculateNgramSimilarity b a"
proof -
  have "{g \<in> A. g \<in> B} = {g \<in> B. g \<in> A}" for A B :: "jsstring set" by auto
  then show ?thesis
    by (simp add: calculateNgramSimilarity_def Let_def disj_commute add.commute)
qed

theorem calculateNgramSimilarity_symmetric_witness:
  "calculateNgramSimilarity (utf16 ''abc def'') (utf16 ''abcde'') = 3 / 4
   \<and> calculateNgramSimilarity (utf16 ''abcde'') (utf16 ''abc def'') = 3 / 4"
proof -
  have e: "calculateNgramSimilarity (utf16 ''abc def'') (utf16 ''abcde'') = 3 / 4"
    by code_simp
  with calculateNgramSimilarity_symmetric[of "utf16 ''abcde''" "utf16 ''abc def''"]
  show ?thesis by presburger
qed

subsection \<open>Offsets and spans of a result\<close>

text \<open>
  C8. For every transcript and every non-empty quote text, a result of
  \<open>findTextInTranscript\<close> (on the index built from the transcript, with a positive
  similarity threshold, as every caller passes and the default is) has
  \<open>0 <= startCharOffset <= length of the start segment's text\<close>,
  \<open>0 <= endCharOffset <= length of the end segment's text\<close>,
  \<open>startSegmentIdx <= endSegmentIdx\<close>, and \<open>startCharOffset < endCharOffset\<close> when the two
  segment indices are equal. Both indices are indices of the transcript.
\<close>

theorem findTextInTranscript_offsets:
  assumes "findTextInTranscript tr q (buildTranscriptIndex tr) opts = Some m"
    and "q \<noteq> []" and "0 < minSimilarity opts"
  shows "0 \<le> startCharOffset m
     \<and> startCharOffset m \<le> int (length (seg_text (tr ! nat (startSegmentIdx m))))
     \<and> 0 \<le> endCharOffset m
     \<and> endCharOffset m \<le> int (length (seg_text (tr ! nat (endSegmentIdx m))))
     \<and> startSegmentIdx m \<le> endSegmentIdx m
     \<and> (startSegmentIdx m = endSegmentIdx m \<longrightarrow> startCharOffset m < endCharOffset m)
     \<and> 0 \<le> startSegmentIdx m \<and> endSegmentIdx m < int (length tr)"
  using findTextInTranscript_good[OF assms] by (simp add: resultGood_def textLen_def)

theorem findTextInTranscript_offsets_witness:
  "utf16 ''today we discuss ai'' \<noteq> [] \<and> 0 < minSimilarity defaultOptions
   \<and> findTextInTranscript showTranscript (utf16 ''today we discuss ai'')
        (buildTranscriptIndex showTranscript) defaultOptions
      = Some \<lparr>found = True, startSegmentIdx = 1, endSegmentIdx = 1, startCharOffset = 0,
              endCharOffset = 19, matchStrategy = Normalized, similarity = 19 / 20,
              confidence = 19 / 20\<rparr>
   \<and> (19::int) \<le> int (length (seg_text (showTranscript ! nat 1)))"
proof -
  let ?m = "\<lparr>found = True, startSegmentIdx = 1, endSegmentIdx = 1, startCharOffset = 0,
              endCharOffset = 19, matchStrategy = Normalized, similarity = 19 / 20,
              confidence = 19 / 20\<rparr>"
  have e: "findTextInTranscript showTranscript (utf16 ''today we discuss ai'')
        (buildTranscriptIndex showTranscript) defaultOptions = Some ?m"
    by code_simp
  have h: "utf16 ''today we discuss ai'' \<noteq> []" "0 < minSimilarity defaultOptions"
    by code_simp+
  from findTextInTranscript_offsets[OF e h]
  have "endCharOffset ?m \<le> int (length (seg_text (showTranscript ! nat (endSegmentIdx ?m))))"
    by blast
  then have "(19::int) \<le> int (length (seg_text (showTranscript ! nat 1)))" by simp
  with e h show ?thesis by blast
qed

subsection \<open>The fuzzy window\<close>

text \<open>
  C3, as amended. In fuzzy matching, the window of a candidate segment starts at segment
  index \<open>max(0, candidateIdx - 2)\<close> and grows segment by segment up to segment index
  \<open>min(transcript.length - 1, candidateIdx + maxSegmentWindow)\<close>; every result with
  strategy \<open>fuzzy-ngram\<close> comes from the window of a candidate and spans at most
  \<open>maxSegmentWindow + 3\<close> segments.
\<close>

theorem fuzzy_window_span:
  assumes "findTextInTranscript tr q ix opts = Some m" and "matchStrategy m = FuzzyNgram"
  shows "\<exists>candidateIdx score.
       (candidateIdx, score) \<in> set (scoredSegments (tallyVotes ix (startIdx opts) (targetWordsOf q)))
     \<and> startSegmentIdx m = max 0 (candidateIdx - 2)
     \<and> startSegmentIdx m \<le> endSegmentIdx m
     \<and> endSegmentIdx m \<le> min (int (length tr) - 1) (candidateIdx + maxSegmentWindow opts)
     \<and> endSegmentIdx m - startSegmentIdx m + 1 \<le> maxSegmentWindow opts + 3"
proof -
  from findTextInTranscript_cases[OF assms(1)] assms(2)
  have "fuzzyMatch tr q ix opts = Some m" by auto
  from fuzzyMatch_Some[OF this] obtain c score where
    c: "(c, score) \<in> set (scoredSegments (tallyVotes ix (startIdx opts) (targetWordsOf q)))"
      "startSegmentIdx m = max 0 (c - 2)" "startSegmentIdx m \<le> endSegmentIdx m"
      "endSegmentIdx m \<le> min (int (length tr) - 1) (c + maxSegmentWindow opts)"
    by blast
  then have "endSegmentIdx m - startSegmentIdx m + 1 \<le> maxSegmentWindow opts + 3" by linarith
  with c show ?thesis by blast
qed

theorem fuzzy_window_span_witness:
  "findTextInTranscript driftTranscript (utf16 ''abc def'') (buildTranscriptIndex driftTranscript)
       (rangeOptions 5 5)
     = Some \<lparr>found = True, startSegmentIdx = 1, endSegmentIdx = 1, startCharOffset = 0,
             endCharOffset = 5, matchStrategy = FuzzyNgram, similarity = 3 / 4,
             confidence = 1 / 2\<rparr>
   \<and> (1::int) - 1 + 1 \<le> maxSegmentWindow (rangeOptions 5 5) + 3"
proof -
  let ?m = "\<lparr>found = True, startSegmentIdx = 1, endSegmentIdx = 1, startCharOffset = 0,
             endCharOffset = 5, matchStrategy = FuzzyNgram, similarity = 3 / 4,
             confidence = 1 / 2\<rparr>"
  have e: "findTextInTranscript driftTranscript (utf16 ''abc def'')
       (buildTranscriptIndex driftTranscript) (rangeOptions 5 5) = Some ?m"
    by code_simp
  have s: "matchStrategy ?m = FuzzyNgram" by simp
  from fuzzy_window_span[OF e s]
  have "endSegmentIdx ?m - startSegmentIdx ?m + 1 \<le> maxSegmentWindow (rangeOptions 5 5) + 3"
    by blast
  then have "(1::int) - 1 + 1 \<le> maxSegmentWindow (rangeOptions 5 5) + 3" by simp
  with e show ?thesis by blast
qed

text \<open>
  The claim as first stated bounds the span by \<open>maxSegmentWindow\<close>. With a window cap of 5
  the first candidate is segment 0, its window runs from segment 0 to segment 5, and the
  threshold is reached only with the sixth segment.
\<close>

theorem fuzzy_window_span_counterexample:
  "findTextInTranscript alphabetTranscript (utf16 ''abc def ghi jkl mno pqrstx'')
       (buildTranscriptIndex alphabetTranscript) windowFive
     = Some \<lparr>found = True, startSegmentIdx = 0, endSegmentIdx = 5, startCharOffset = 0,
             endCharOffset = 6, matchStrategy = FuzzyNgram, similarity = 9 / 10,
             confidence = 1 / 6\<rparr>
   \<and> maxSegmentWindow windowFive = 5"
  by code_simp

subsection \<open>Per-quote resolution\<close>

text \<open>
  C1, as amended. For every transcript and every quote whose timestamp is non-empty and
  parses, whose text is non-empty after trimming, and whose range overlaps at least one
  segment (\<open>segment.start <= timestampEnd\<close> and
  \<open>segment.start + segment.duration >= timestampStart\<close>), the resolution of the quote
  returns a highlight, neither \<open>null\<close> nor an exception, and \<open>findExactQuotes\<close> on
  that quote alone returns that one highlight. When the global cascade fails
  and the constrained re-run gives no accepted match, the highlight is the fallback: its
  text is the texts of the overlapping segments joined with single spaces, its span runs
  from the first to the last overlapping segment, \<open>startCharOffset = 0\<close>,
  \<open>endCharOffset\<close> is the length of the last overlapping segment's text,
  \<open>confidence = 0.5\<close> and \<open>hasCompleteSentences = false\<close>.
\<close>

theorem resolveQuote_always_resolves:
  fixes tr :: "TranscriptSegment list"
  defines "ix \<equiv> buildTranscriptIndex tr"
  assumes "q_timestamp quote \<noteq> []"
    and "parseTimestampRange (q_timestamp quote) = Some (timestampStart, timestampEnd)"
    and "trim (q_text quote) \<noteq> []"
    and "i < length tr" and "overlaps timestampStart timestampEnd (tr ! i)"
  shows "(\<exists>h. resolveQuote parseTimestampRange tr ix quote = Inr (Some h)
            \<and> findExactQuotes parseTimestampRange tr [quote] ix = Inr [h])
     \<and> (findTextInTranscript tr (trim (q_text quote)) ix globalOptions = None
          \<and> constrainedMatch tr (trim (q_text quote)) ix
                (int (hd (overlapIndices tr timestampStart timestampEnd)))
                (int (last (overlapIndices tr timestampStart timestampEnd))) = None
        \<longrightarrow> resolveQuote parseTimestampRange tr ix quote = Inr (Some
             \<lparr>hl_start = seg_start (tr ! hd (overlapIndices tr timestampStart timestampEnd)),
              hl_end = seg_start (tr ! last (overlapIndices tr timestampStart timestampEnd))
                 + seg_duration (tr ! last (overlapIndices tr timestampStart timestampEnd)),
              hl_text = joinSpace (map (\<lambda>i. seg_text (tr ! i))
                          (overlapIndices tr timestampStart timestampEnd)),
              hl_startSegmentIdx = int (hd (overlapIndices tr timestampStart timestampEnd)),
              hl_endSegmentIdx = int (last (overlapIndices tr timestampStart timestampEnd)),
              hl_startCharOffset = 0,
              hl_endCharOffset = int (length (seg_text
                 (tr ! last (overlapIndices tr timestampStart timestampEnd)))),
              hasCompleteSentences = False,
              hl_confidence = 1 / 2\<rparr>))"
proof -
  let ?idxs = "overlapIndices tr timestampStart timestampEnd"
  let ?sir = "segmentsInRange tr timestampStart timestampEnd"
  have ne: "?idxs \<noteq> []" using assms(5,6) by (rule overlapIndices_nonempty)
  then have sne: "?sir \<noteq> []" by (simp add: segmentsInRange_eq)
  have hd_last: "fst (hd ?sir) = int (hd ?idxs)" "fst (last ?sir) = int (last ?idxs)"
    using ne by (simp_all add: segmentsInRange_eq hd_map last_map)
  have "\<exists>h. resolveQuote parseTimestampRange tr ix quote = Inr (Some h)"
    unfolding ix_def
    using resolveQuote_total[of quote parseTimestampRange timestampStart timestampEnd tr]
      assms(2-4) ne by simp
  then have total: "\<exists>h. resolveQuote parseTimestampRange tr ix quote = Inr (Some h)
            \<and> findExactQuotes parseTimestampRange tr [quote] ix = Inr [h]"
    by (auto simp: findExactQuotes_def)
  have fb: "resolveQuote parseTimestampRange tr ix quote = Inr (Some (fallbackHighlight ?sir))"
    if "findTextInTranscript tr (trim (q_text quote)) ix globalOptions = None"
      "constrainedMatch tr (trim (q_text quote)) ix (int (hd ?idxs)) (int (last ?idxs)) = None"
    using resolveQuote_range[of quote parseTimestampRange timestampStart timestampEnd tr ix]
      assms(2-4) sne that hd_last by simp
  show ?thesis
    using total fb fallbackHighlight_eq[OF ne] by simp
qed

theorem resolveQuote_always_resolves_witness:
  "q_timestamp (quoteAt55 ''xyzzy'') \<noteq> []
   \<and> parseFiftyFive (q_timestamp (quoteAt55 ''xyzzy'')) = Some (55, 58)
   \<and> trim (q_text (quoteAt55 ''xyzzy'')) \<noteq> []
   \<and> overlaps 55 58 (driftTranscript ! 5)
   \<and> findTextInTranscript driftTranscript (trim (q_text (quoteAt55 ''xyzzy'')))
        (buildTranscriptIndex driftTranscript) globalOptions = None
   \<and> resolveQuote parseFiftyFive driftTranscript (buildTranscriptIndex driftTranscript)
        (quoteAt55 ''xyzzy'')
      = Inr (Some \<lparr>hl_start = 50, hl_end = 60, hl_text = utf16 ''ss'',
                    hl_startSegmentIdx = 5, hl_endSegmentIdx = 5, hl_startCharOffset = 0,
                    hl_endCharOffset = 2, hasCompleteSentences = False,
                    hl_confidence = 1 / 2\<rparr>)"
proof -
  let ?tr = driftTranscript
  let ?q = "quoteAt55 ''xyzzy''"
  let ?ix = "buildTranscriptIndex ?tr"
  let ?idxs = "overlapIndices ?tr 55 58"
  have h: "q_timestamp ?q \<noteq> []" "parseFiftyFive (q_timestamp ?q) = Some (55, 58)"
    "trim (q_text ?q) \<noteq> []" "5 < length ?tr" "overlaps 55 58 (?tr ! 5)"
    by code_simp+
  have f: "findTextInTranscript ?tr (trim (q_text ?q)) ?ix globalOptions = None"
    "constrainedMatch ?tr (trim (q_text ?q)) ?ix (int (hd ?idxs)) (int (last ?idxs)) = None"
    by code_simp+
  have v: "\<lparr>hl_start = seg_start (?tr ! hd ?idxs),
              hl_end = seg_start (?tr ! last ?idxs) + seg_duration (?tr ! last ?idxs),
              hl_text = joinSpace (map (\<lambda>i. seg_text (?tr ! i)) ?idxs),
              hl_startSegmentIdx = int (hd ?idxs),
              hl_endSegmentIdx = int (last ?idxs),
              hl_startCharOffset = 0,
              hl_endCharOffset = int (length (seg_text (?tr ! last ?idxs))),
              hasCompleteSentences = False,
              hl_confidence = 1 / 2\<rparr>
         = \<lparr>hl_start = 50, hl_end = 60, hl_text = utf16 ''ss'',
                    hl_startSegmentIdx = 5, hl_endSegmentIdx = 5, hl_startCharOffset = 0,
                    hl_endCharOffset = 2, hasCompleteSentences = False,
                    hl_confidence = 1 / 2\<rparr>"
    by code_simp
  from resolveQuote_always_resolves[where tr = "?tr" and quote = "?q"
      and parseTimestampRange = parseFiftyFive and timestampStart = 55 and timestampEnd = 58
      and i = 5] h f
  have "resolveQuote parseFiftyFive ?tr ?ix ?q = Inr (Some
             \<lparr>hl_start = seg_start (?tr ! hd ?idxs),
              hl_end = seg_start (?tr ! last ?idxs) + seg_duration (?tr ! last ?idxs),
              hl_text = joinSpace (map (\<lambda>i. seg_text (?tr ! i)) ?idxs),
              hl_startSegmentIdx = int (hd ?idxs),
              hl_endSegmentIdx = int (last ?idxs),
              hl_startCharOffset = 0,
              hl_endCharOffset = int (length (seg_text (?tr ! last ?idxs))),
              hasCompleteSentences = False,
              hl_confidence = 1 / 2\<rparr>)"
    by blast
  then have "resolveQuote parseFiftyFive ?tr ?ix ?q
      = Inr (Some \<lparr>hl_start = 50, hl_end = 60, hl_text = utf16 ''ss'',
                    hl_startSegmentIdx = 5, hl_endSegmentIdx = 5, hl_startCharOffset = 0,
                    hl_endCharOffset = 2, hasCompleteSentences = False,
                    hl_confidence = 1 / 2\<rparr>)"
    unfolding v .
  with h f show ?thesis by blast
qed

text \<open>
  The claim as first stated fails for a quote whose text is empty after trimming: the
  guard \<open>if (!quoteText) return null\<close> drops it although its range parses and overlaps
  segment 5.
\<close>

theorem resolveQuote_always_resolves_counterexample:
  "parseFiftyFive (q_timestamp (quoteAt55 '' '')) = Some (55, 58)
   \<and> overlaps 55 58 (driftTranscript ! 5)
   \<and> resolveQuote parseFiftyFive driftTranscript (buildTranscriptIndex driftTranscript)
        (quoteAt55 '' '') = Inr None"
  by code_simp

subsection \<open>The constrained re-run\<close>

text \<open>
  C5, as amended. Whenever the global cascade fails and the set of segments overlapping
  the quote's timestamp range is non-empty, the result of the constrained re-run is
  accepted only if its start segment index is at most \<open>lastOverlap + 2\<close>; every accepted
  constrained match \<open>m\<close> is a fuzzy match and satisfies
  \<open>max(0, firstOverlap - 4) <= m.startSegmentIdx <= lastOverlap + 2\<close>.
\<close>

theorem constrainedMatch_bounds:
  assumes "findTextInTranscript tr q ix globalOptions = None"
    and "inRange = segmentsInRange tr timestampStart timestampEnd" and "inRange \<noteq> []"
    and "constrainedMatch tr q ix (fst (hd inRange)) (fst (last inRange)) = Some m"
  shows "matchStrategy m = FuzzyNgram
     \<and> max 0 (fst (hd inRange) - 4) \<le> startSegmentIdx m
     \<and> startSegmentIdx m \<le> fst (last inRange) + 2"
proof -
  let ?first = "fst (hd inRange)" and ?last = "fst (last inRange)"
  from assms(4) have r: "findTextInTranscript tr q ix (rangeOptions ?first ?last) = Some m"
    and up: "startSegmentIdx m \<le> ?last + 2"
    by (simp_all add: constrainedMatch_Some)
  from assms(1) have "exactMatch q ix = None" "normalizedMatch q ix = None"
    by (auto simp: findTextInTranscript_def split: option.splits)
  with findTextInTranscript_cases[OF r]
  have "fuzzyMatch tr q ix (rangeOptions ?first ?last) = Some m" by auto
  from fuzzyMatch_Some[OF this] obtain c where
    c: "startIdx (rangeOptions ?first ?last) \<le> c" "startSegmentIdx m = max 0 (c - 2)"
      "matchStrategy m = FuzzyNgram"
    by blast
  from c(1) have "max 0 (?first - 2) \<le> c" by (simp add: rangeOptions_def)
  with c(2) have "max 0 (?first - 4) \<le> startSegmentIdx m" by linarith
  with c(3) up show ?thesis by blast
qed

theorem constrainedMatch_bounds_witness:
  "findTextInTranscript driftTranscript (utf16 ''abc def'')
       (buildTranscriptIndex driftTranscript) globalOptions = None
   \<and> segmentsInRange driftTranscript 55 58 \<noteq> []
   \<and> fst (hd (segmentsInRange driftTranscript 55 58)) = 5
   \<and> fst (last (segmentsInRange driftTranscript 55 58)) = 5
   \<and> constrainedMatch driftTranscript (utf16 ''abc def'') (buildTranscriptIndex driftTranscript)
        (fst (hd (segmentsInRange driftTranscript 55 58)))
        (fst (last (segmentsInRange driftTranscript 55 58)))
      = Some \<lparr>found = True, startSegmentIdx = 1, endSegmentIdx = 1, startCharOffset = 0,
              endCharOffset = 5, matchStrategy = FuzzyNgram, similarity = 3 / 4,
              confidence = 1 / 2\<rparr>
   \<and> max 0 (fst (hd (segmentsInRange driftTranscript 55 58)) - 4) \<le> (1::int)"
proof -
  let ?tr = driftTranscript
  let ?ix = "buildTranscriptIndex ?tr"
  let ?sir = "segmentsInRange ?tr 55 58"
  let ?m = "\<lparr>found = True, startSegmentIdx = 1, endSegmentIdx = 1, startCharOffset = 0,
              endCharOffset = 5, matchStrategy = FuzzyNgram, similarity = 3 / 4,
              confidence = 1 / 2\<rparr>"
  have g: "findTextInTranscript ?tr (utf16 ''abc def'') ?ix globalOptions = None"
    by code_simp
  have s: "?sir \<noteq> []" "fst (hd ?sir) = 5" "fst (last ?sir) = 5"
    by code_simp+
  have c: "constrainedMatch ?tr (utf16 ''abc def'') ?ix (fst (hd ?sir)) (fst (last ?sir)) = Some ?m"
    by code_simp
  from constrainedMatch_bounds[OF g refl s(1) c]
  have "max 0 (fst (hd ?sir) - 4) \<le> startSegmentIdx ?m" by blast
  then have "max 0 (fst (hd ?sir) - 4) \<le> (1::int)" by simp
  with g s c show ?thesis by blast
qed

text \<open>
  The claim as first stated has the lower bound \<open>firstOverlap - 2\<close>. Here the range
  overlaps segment 5 only, the candidate is segment 3, its window starts at segment 1,
  and the match starting at segment 1 is accepted and returned.
\<close>

theorem constrainedMatch_bounds_counterexample:
  "findTextInTranscript driftTranscript (trim (q_text (quoteAt55 ''abc def'')))
       (buildTranscriptIndex driftTranscript) globalOptions = None
   \<and> map fst (segmentsInRange driftTranscript 55 58) = [5]
   \<and> map_option startSegmentIdx
        (constrainedMatch driftTranscript (trim (q_text (quoteAt55 ''abc def'')))
           (buildTranscriptIndex driftTranscript) 5 5) = Some 1
   \<and> resolveQuote parseFiftyFive driftTranscript (buildTranscriptIndex driftTranscript)
        (quoteAt55 ''abc def'')
      = Inr (Some \<lparr>hl_start = 10, hl_end = 20, hl_text = utf16 ''abc def'',
                    hl_startSegmentIdx = 1, hl_endSegmentIdx = 1, hl_startCharOffset = 0,
                    hl_endCharOffset = 5, hasCompleteSentences = False,
                    hl_confidence = 1 / 2\<rparr>)"
  by code_simp

subsection \<open>A quote spanning two adjacent segments\<close>

text \<open>
  C7, as amended. For every transcript and every pair of adjacent segments \<open>i\<close> and
  \<open>i + 1\<close> with non-empty texts, the quote formed as segment \<open>i\<close>'s text, a single space and
  segment \<open>i + 1\<close>'s text, when it does not occur in the full text before the start
  position of segment \<open>i\<close>, resolves with strategy \<open>exact\<close>, similarity 1.0,
  \<open>startSegmentIdx = i\<close> and \<open>endSegmentIdx = i + 1\<close> (from offset 0 to the end of segment
  \<open>i + 1\<close>'s text).
\<close>

theorem adjacent_segments_exact:
  fixes tr :: "TranscriptSegment list"
  defines "ix \<equiv> buildTranscriptIndex tr"
  assumes "i + 1 < length tr"
    and "seg_text (tr ! i) \<noteq> []" and "seg_text (tr ! (i + 1)) \<noteq> []"
    and "q = seg_text (tr ! i) @ [32] @ seg_text (tr ! (i + 1))"
    and "\<forall>s. occursAt (fullTextSpace ix) q s \<longrightarrow> startPos (segmentBoundaries ix ! i) \<le> int s"
  shows "findTextInTranscript tr q ix opts =
     Some \<lparr>found = True, startSegmentIdx = int i, endSegmentIdx = int i + 1,
            startCharOffset = 0, endCharOffset = int (length (seg_text (tr ! (i + 1)))),
            matchStrategy = Exact, similarity = 1, confidence = 1\<rparr>"
  using exactMatch_adjacent[OF assms(2-5)] assms(6)
  by (simp add: findTextInTranscript_def withStrategy_def ix_def)

theorem adjacent_segments_exact_witness:
  "1 + 1 < length repeatTranscript
   \<and> seg_text (repeatTranscript ! 1) \<noteq> [] \<and> seg_text (repeatTranscript ! (1 + 1)) \<noteq> []
   \<and> seg_text (repeatTranscript ! 1) @ [32] @ seg_text (repeatTranscript ! (1 + 1)) = utf16 ''b a''
   \<and> boyerMooreSearch (fullTextSpace (buildTranscriptIndex repeatTranscript)) (utf16 ''b a'') = 2
   \<and> startPos (segmentBoundaries (buildTranscriptIndex repeatTranscript) ! 1) = 2
   \<and> findTextInTranscript repeatTranscript (utf16 ''b a'')
        (buildTranscriptIndex repeatTranscript) defaultOptions
      = Some \<lparr>found = True, startSegmentIdx = 1, endSegmentIdx = 2, startCharOffset = 0,
              endCharOffset = 1, matchStrategy = Exact, similarity = 1, confidence = 1\<rparr>"
proof -
  let ?tr = repeatTranscript
  let ?ix = "buildTranscriptIndex ?tr"
  let ?q = "utf16 ''b a''"
  have h: "1 + 1 < length ?tr" "seg_text (?tr ! 1) \<noteq> []" "seg_text (?tr ! (1 + 1)) \<noteq> []"
    by code_simp+
  have q: "?q = seg_text (?tr ! 1) @ [32] @ seg_text (?tr ! (1 + 1))" by code_simp
  have bm: "boyerMooreSearch (fullTextSpace ?ix) ?q = 2" by code_simp
  have sp: "startPos (segmentBoundaries ?ix ! 1) = 2" by code_simp
  from boyerMooreSearch_cases[of "fullTextSpace ?ix" ?q] bm obtain r where
    r: "int r = 2" "\<forall>s<r. \<not> occursAt (fullTextSpace ?ix) ?q s"
    by auto
  have early: "\<forall>s. occursAt (fullTextSpace ?ix) ?q s \<longrightarrow> startPos (segmentBoundaries ?ix ! 1) \<le> int s"
  proof (intro allI impI)
    fix s assume "occursAt (fullTextSpace ?ix) ?q s"
    with r(2) have "\<not> s < r" by blast
    with r(1) sp show "startPos (segmentBoundaries ?ix ! 1) \<le> int s" by linarith
  qed
  have v: "\<lparr>found = True, startSegmentIdx = int 1, endSegmentIdx = int 1 + 1,
            startCharOffset = 0, endCharOffset = int (length (seg_text (?tr ! (1 + 1)))),
            matchStrategy = Exact, similarity = 1, confidence = 1\<rparr>
         = \<lparr>found = True, startSegmentIdx = 1, endSegmentIdx = 2, startCharOffset = 0,
              endCharOffset = 1, matchStrategy = Exact, similarity = 1, confidence = 1\<rparr>"
    by code_simp
  from adjacent_segments_exact[OF h q early, of defaultOptions]
  have "findTextInTranscript ?tr ?q ?ix defaultOptions
      = Some \<lparr>found = True, startSegmentIdx = 1, endSegmentIdx = 2, startCharOffset = 0,
              endCharOffset = 1, matchStrategy = Exact, similarity = 1, confidence = 1\<rparr>"
    unfolding v .
  with h q[symmetric] bm sp show ?thesis by blast
qed

text \<open>
  The claim as first stated fails when the quote already occurs earlier: the search
  returns the leftmost occurrence. The quote of segments 2 and 3 resolves to segments 0
  and 1. It also fails at an empty segment text: no position of the full text belongs to
  the empty segment 0, the exact mapping finds no start segment, and the quote of segments
  0 and 1 resolves by the normalized strategy to segment 1 alone.
\<close>

theorem adjacent_segments_exact_counterexample:
  "seg_text (repeatTranscript ! 2) @ [32] @ seg_text (repeatTranscript ! 3) = utf16 ''a b''
   \<and> findTextInTranscript repeatTranscript (utf16 ''a b'')
        (buildTranscriptIndex repeatTranscript) defaultOptions
      = Some \<lparr>found = True, startSegmentIdx = 0, endSegmentIdx = 1, startCharOffset = 0,
              endCharOffset = 1, matchStrategy = Exact, similarity = 1, confidence = 1\<rparr>
   \<and> seg_text (emptyFirstTranscript ! 0) @ [32] @ seg_text (emptyFirstTranscript ! 1)
        = utf16 '' b''
   \<and> findTextInTranscript emptyFirstTranscript (utf16 '' b'')
        (buildTranscriptIndex emptyFirstTranscript) defaultOptions
      = Some \<lparr>found = True, startSegmentIdx = 1, endSegmentIdx = 1, startCharOffset = 0,
              endCharOffset = 1, matchStrategy = Normalized, similarity = 19 / 20,
              confidence = 19 / 20\<rparr>"
  by code_simp

subsection \<open>The vote of the fuzzy strategy\<close>

text \<open>
  C4, as amended. During fuzzy candidate selection, for every query and every candidate
  segment (every entry of the tally), the tallied vote count is the raw occurrence count:
  the sum, over the query tokens (normalized tokens of length > 2, a repeated token taken
  once per repetition), of the number of times the token occurs among the words of the
  segment (its normalized tokens of length > 2). A candidate has an index of the
  transcript, not below the lower bound; a segment that is no candidate has the sum 0 or
  lies below the lower bound.
\<close>

theorem vote_count_is_occurrence_count:
  fixes tr :: "TranscriptSegment list" and fromIdx :: int and q :: jsstring
  defines "tally \<equiv> tallyVotes (buildTranscriptIndex tr) fromIdx (targetWordsOf q)"
  shows "((candidateIdx, votes) \<in> set tally \<longrightarrow>
            fromIdx \<le> candidateIdx \<and> 0 \<le> candidateIdx \<and> candidateIdx < int (length tr)
            \<and> votes = (\<Sum>w\<leftarrow>targetWordsOf q.
                          int (count_list (segmentWords (tr ! nat candidateIdx)) w)))
     \<and> (case map_of tally c of Some n \<Rightarrow> n | None \<Rightarrow> 0)
         = (if fromIdx \<le> c \<and> 0 \<le> c \<and> c < int (length tr)
            then (\<Sum>w\<leftarrow>targetWordsOf q. int (count_list (segmentWords (tr ! nat c)) w))
            else 0)"
proof -
  have entry: "(candidateIdx, votes) \<in> set tally \<longrightarrow>
            fromIdx \<le> candidateIdx \<and> 0 \<le> candidateIdx \<and> candidateIdx < int (length tr)
            \<and> votes = (\<Sum>w\<leftarrow>targetWordsOf q.
                          int (count_list (segmentWords (tr ! nat candidateIdx)) w))"
    unfolding tally_def using tallyVotes_entry by blast
  have "getScore tally c
         = (if fromIdx \<le> c \<and> 0 \<le> c \<and> c < int (length tr)
            then (\<Sum>w\<leftarrow>targetWordsOf q. int (count_list (segmentWords (tr ! nat c)) w))
            else 0)"
    unfolding tally_def by (auto simp: getScore_tallyVotes getList_build count_postings)
  with entry show ?thesis by (simp add: getScore_def)
qed

theorem vote_count_is_occurrence_count_witness:
  "(0, 3) \<in> set (tallyVotes (buildTranscriptIndex theTranscript) 0 (targetWordsOf (utf16 ''the'')))
   \<and> (\<Sum>w\<leftarrow>targetWordsOf (utf16 ''the'').
         int (count_list (segmentWords (theTranscript ! nat 0)) w)) = 3"
proof -
  have e: "(0, 3) \<in> set (tallyVotes (buildTranscriptIndex theTranscript) 0
                          (targetWordsOf (utf16 ''the'')))"
    by code_simp
  from vote_count_is_occurrence_count[where tr = theTranscript and fromIdx = 0
      and q = "utf16 ''the''" and candidateIdx = 0 and votes = 3] e
  have "(3::int) = (\<Sum>w\<leftarrow>targetWordsOf (utf16 ''the'').
         int (count_list (segmentWords (theTranscript ! nat 0)) w))"
    by blast
  with e show ?thesis by simp
qed

text \<open>
  The claim as first stated counts distinct query tokens. A word that occurs three times
  in a segment votes three times for it, and a token that the query repeats votes once
  per repetition; in both transcripts a single distinct query token occurs in segment 0.
\<close>

theorem vote_count_is_occurrence_count_counterexample:
  "tallyVotes (buildTranscriptIndex theTranscript) 0 (targetWordsOf (utf16 ''the'')) = [(0, 3)]
   \<and> card {w \<in> set (targetWordsOf (utf16 ''the'')). w \<in> set (segmentWords (theTranscript ! 0))} = 1
   \<and> tallyVotes (buildTranscriptIndex catTranscript) 0 (targetWordsOf (utf16 ''the the''))
        = [(0, 2)]
   \<and> card {w \<in> set (targetWordsOf (utf16 ''the the'')). w \<in> set (segmentWords (catTranscript ! 0))} = 1"
  by code_simp

subsection \<open>The pattern of the normalized strategy\<close>

text \<open>
  C2 does not hold on the code. The second strategy searches \<open>normalizedText\<close>, which is
  built with \<open>normalizeForMatching\<close>, for \<open>normalizeWhitespace(targetText)\<close>: the quote keeps
  its case and its punctuation. For the segment \<open>Hello, world!\<close> and the quote
  \<open>Hello world\<close> the normalization of the quote occurs in \<open>normalizedText\<close> at index 0, the
  pattern that is searched does not, and the quote falls through to the fuzzy strategy.
\<close>

theorem normalized_pattern_keeps_case:
  "normalizedText (buildTranscriptIndex helloTranscript) = utf16 ''hello world''
   \<and> normalizeForMatching (utf16 ''Hello world'') = utf16 ''hello world''
   \<and> normalizeWhitespace (utf16 ''Hello world'') = utf16 ''Hello world''
   \<and> boyerMooreSearch (normalizedText (buildTranscriptIndex helloTranscript))
        (normalizeForMatching (utf16 ''Hello world'')) = 0
   \<and> boyerMooreSearch (normalizedText (buildTranscriptIndex helloTranscript))
        (normalizeWhitespace (utf16 ''Hello world'')) = - 1
   \<and> normalizedMatch (utf16 ''Hello world'') (buildTranscriptIndex helloTranscript) = None
   \<and> findTextInTranscript helloTranscript (utf16 ''Hello world'')
        (buildTranscriptIndex helloTranscript) defaultOptions
      = Some \<lparr>found = True, startSegmentIdx = 0, endSegmentIdx = 0, startCharOffset = 0,
              endCharOffset = 13, matchStrategy = FuzzyNgram, similarity = 1,
              confidence = 1\<rparr>"
  by code_simp

end
